theory Spec2Isabelle
  imports Main
begin

section \<open>Outcomes of a C++ call\<close>

text \<open>
  A member function of the class template SimpleVector (simple_vector.h) either returns,
  or leaves by an exception, or has undefined behaviour (an access outside the buffer,
  an invalid iterator range). The first two carry the state of the object(s) at that
  moment, so that what an exception leaves behind is part of the model.
\<close>

datatype exn = bad_alloc | out_of_range

datatype ('r, 's) outcome = Returns 'r 's | Throws exn 's | Undefined

text \<open>Sequencing of two steps: an exception or undefined behaviour ends the call.\<close>

fun then_do :: "('r, 's) outcome \<Rightarrow> ('r \<Rightarrow> 's \<Rightarrow> ('q, 's) outcome) \<Rightarrow> ('q, 's) outcome" where
  "then_do (Returns r s) k = k r s"
| "then_do (Throws e s) k = Throws e s"
| "then_do Undefined k = Undefined"

text \<open>Forgetting the returned value (to compare calls with different return types).\<close>

fun discard :: "('r, 's) outcome \<Rightarrow> (unit, 's) outcome" where
  "discard (Returns r s) = Returns () s"
| "discard (Throws e s) = Throws e s"
| "discard Undefined = Undefined"

section \<open>size_t\<close>

text \<open>
  \<open>size_t\<close> is taken as the 64-bit unsigned type; a value is a natural number and
  arithmetic that can wrap goes through \<open>size_t\<close>.
\<close>

definition SIZE_MAX :: nat where
  "SIZE_MAX = 2 ^ 64 - 1"

definition size_t :: "nat \<Rightarrow> nat" where
  "size_t n = n mod 2 ^ 64"

section \<open>The owned buffer\<close>

text \<open>
  Modelled from the spec: the class template ArrayPtr of array_ptr.h, which simple_vector.h
  includes and which is not among the sources. The spec (4.1, Owned Buffer) gives it as
  the exclusive owner of one block of slots: allocation of exactly the requested number
  of value-initialized slots (no allocation for 0, the null state), which fails with an
  allocation error if memory cannot be obtained; unchecked element access, undefined
  outside the allocated range; a swap that exchanges the two blocks; a move that leaves
  the source empty. A buffer is the list of its slots, the null buffer is \<open>[]\<close>.

  \<open>avail n\<close> says whether the memory system can provide a block of \<open>n\<close> slots at this
  call; \<open>d\<close> is the value-initialized element \<open>Type()\<close>. \<open>None\<close> is the allocation
  error for \<open>ArrayPtr_new\<close> and undefined behaviour for the two accesses.
\<close>

definition ArrayPtr_new :: "(nat \<Rightarrow> bool) \<Rightarrow> 'a \<Rightarrow> nat \<Rightarrow> 'a list option" where
  "ArrayPtr_new avail d n =
     (if n = 0 then Some [] else if avail n then Some (replicate n d) else None)"

definition ArrayPtr_get :: "'a list \<Rightarrow> nat \<Rightarrow> 'a option" where
  "ArrayPtr_get buf i = (if i < length buf then Some (buf ! i) else None)"

definition ArrayPtr_put :: "'a list \<Rightarrow> nat \<Rightarrow> 'a \<Rightarrow> 'a list option" where
  "ArrayPtr_put buf i x = (if i < length buf then Some (buf[i := x]) else None)"

section \<open>The standard algorithms the vector calls\<close>

text \<open>
  Iterators are raw pointers into a buffer; a pointer is modelled by its offset from the
  start of the buffer it points into. Each algorithm is the loop of the C++ standard
  library over such offsets; a range whose end lies before its start, and every access
  outside the buffer, is undefined behaviour (\<open>None\<close>).

  \<open>moved_from s t\<close> is the state in which the move assignment \<open>dst = std::move(src)\<close>
  leaves the source object, given the values \<open>s\<close> of the source and \<open>t\<close> of the
  destination before it (for a trivially copyable Type the source keeps \<open>s\<close>; a class
  type may leave it empty or, with a swapping move assignment, holding \<open>t\<close>).
\<close>

definition move_assign :: "('a \<Rightarrow> 'a \<Rightarrow> 'a) \<Rightarrow> 'a list \<Rightarrow> nat \<Rightarrow> nat \<Rightarrow> 'a list option" where
  \<comment> \<open>\<open>buf[dst] = std::move(buf[src])\<close> inside one buffer\<close>
  "move_assign moved_from buf dst src =
     (if src < length buf \<and> dst < length buf
      then Some (buf[dst := buf ! src, src := moved_from (buf ! src) (buf ! dst)])
      else None)"

function std_move :: "('a \<Rightarrow> 'a \<Rightarrow> 'a) \<Rightarrow> 'a list \<Rightarrow> nat \<Rightarrow> nat \<Rightarrow> nat \<Rightarrow> 'a list option" where
  \<comment> \<open>\<open>std::move(first, last, d_first)\<close>, source and destination in the same buffer\<close>
  "std_move moved_from buf first lst d_first =
     (if first < lst then
        (case move_assign moved_from buf d_first first of
           None \<Rightarrow> None
         | Some buf' \<Rightarrow> std_move moved_from buf' (first + 1) lst (d_first + 1))
      else if first = lst then Some buf else None)"
  by pat_completeness auto
termination
  by (relation "measure (\<lambda>(moved_from, buf, first, lst, d_first). lst - first)") auto

function std_move_backward :: "('a \<Rightarrow> 'a \<Rightarrow> 'a) \<Rightarrow> 'a list \<Rightarrow> nat \<Rightarrow> nat \<Rightarrow> nat \<Rightarrow> 'a list option" where
  \<comment> \<open>\<open>std::move_backward(first, last, d_last)\<close> in one buffer: from the end towards \<open>first\<close>\<close>
  "std_move_backward moved_from buf first lst d_last =
     (if first < lst then
        (if d_last = 0 then None
         else case move_assign moved_from buf (d_last - 1) (lst - 1) of
           None \<Rightarrow> None
         | Some buf' \<Rightarrow> std_move_backward moved_from buf' first (lst - 1) (d_last - 1))
      else if first = lst then Some buf else None)"
  by pat_completeness auto
termination
  by (relation "measure (\<lambda>(moved_from, buf, first, lst, d_last). lst - first)") auto

function std_move_to ::
  "('a \<Rightarrow> 'a \<Rightarrow> 'a) \<Rightarrow> 'a list \<Rightarrow> nat \<Rightarrow> nat \<Rightarrow> 'a list \<Rightarrow> nat \<Rightarrow> ('a list \<times> 'a list) option" where
  \<comment> \<open>\<open>std::move(first, last, d_first)\<close> from the buffer \<open>src\<close> into another buffer \<open>dst\<close>;
      returns both buffers\<close>
  "std_move_to moved_from src first lst dst d_first =
     (if first < lst then
        (if first < length src \<and> d_first < length dst
         then std_move_to moved_from
                (src[first := moved_from (src ! first) (dst ! d_first)]) (first + 1) lst
                (dst[d_first := src ! first]) (d_first + 1)
         else None)
      else if first = lst then Some (src, dst) else None)"
  by pat_completeness auto
termination
  by (relation "measure (\<lambda>(moved_from, src, first, lst, dst, d_first). lst - first)") auto

function std_copy_to :: "'a list \<Rightarrow> nat \<Rightarrow> nat \<Rightarrow> 'a list \<Rightarrow> nat \<Rightarrow> 'a list option" where
  \<comment> \<open>\<open>std::copy(first, last, d_first)\<close> from the buffer \<open>src\<close> into another buffer \<open>dst\<close>\<close>
  "std_copy_to src first lst dst d_first =
     (if first < lst then
        (if first < length src \<and> d_first < length dst
         then std_copy_to src (first + 1) lst (dst[d_first := src ! first]) (d_first + 1)
         else None)
      else if first = lst then Some dst else None)"
  by pat_completeness auto
termination
  by (relation "measure (\<lambda>(src, first, lst, dst, d_first). lst - first)") auto

function std_fill :: "'a list \<Rightarrow> nat \<Rightarrow> nat \<Rightarrow> 'a \<Rightarrow> 'a list option" where
  \<comment> \<open>\<open>std::fill(first, last, value)\<close>\<close>
  "std_fill buf first lst val =
     (if first < lst then
        (case ArrayPtr_put buf first val of
           None \<Rightarrow> None
         | Some buf' \<Rightarrow> std_fill buf' (first + 1) lst val)
      else if first = lst then Some buf else None)"
  by pat_completeness auto
termination
  by (relation "measure (\<lambda>(buf, first, lst, val). lst - first)") auto

definition std_uninitialized_value_construct :: "'a \<Rightarrow> 'a list \<Rightarrow> nat \<Rightarrow> nat \<Rightarrow> 'a list option" where
  \<comment> \<open>\<open>std::uninitialized_value_construct(first, last)\<close>: a value-initialized object \<open>Type()\<close>
      is constructed in every slot of the range\<close>
  "std_uninitialized_value_construct d buf first lst = std_fill buf first lst d"

function std_equal_loop :: "'a list \<Rightarrow> nat \<Rightarrow> nat \<Rightarrow> 'a list \<Rightarrow> nat \<Rightarrow> bool option" where
  "std_equal_loop xs first1 last1 ys first2 =
     (if first1 < last1 then
        (case (ArrayPtr_get xs first1, ArrayPtr_get ys first2) of
           (Some x, Some y) \<Rightarrow>
             if \<not> (x = y) then Some False
             else std_equal_loop xs (first1 + 1) last1 ys (first2 + 1)
         | _ \<Rightarrow> None)
      else if first1 = last1 then Some True else None)"
  by pat_completeness auto
termination
  by (relation "measure (\<lambda>(xs, first1, last1, ys, first2). last1 - first1)") auto

definition std_equal :: "'a list \<Rightarrow> nat \<Rightarrow> nat \<Rightarrow> 'a list \<Rightarrow> nat \<Rightarrow> nat \<Rightarrow> bool option" where
  \<comment> \<open>\<open>std::equal(first1, last1, first2, last2)\<close> on random-access iterators: ranges of
      different lengths are unequal, otherwise the elements are compared in order\<close>
  "std_equal xs first1 last1 ys first2 last2 =
     (if last1 < first1 \<or> last2 < first2 then None
      else if last1 - first1 \<noteq> last2 - first2 then Some False
      else std_equal_loop xs first1 last1 ys first2)"

function std_lexicographical_compare ::
  "('a::ord) list \<Rightarrow> nat \<Rightarrow> nat \<Rightarrow> 'a list \<Rightarrow> nat \<Rightarrow> nat \<Rightarrow> bool option" where
  \<comment> \<open>\<open>std::lexicographical_compare(first1, last1, first2, last2)\<close>, with \<open><\<close> of Type\<close>
  "std_lexicographical_compare xs first1 last1 ys first2 last2 =
     (if first1 < last1 \<and> first2 < last2 then
        (case (ArrayPtr_get xs first1, ArrayPtr_get ys first2) of
           (Some x, Some y) \<Rightarrow>
             if x < y then Some True
             else if y < x then Some False
             else std_lexicographical_compare xs (first1 + 1) last1 ys (first2 + 1) last2
         | _ \<Rightarrow> None)
      else if last1 < first1 \<or> last2 < first2 then None
      else Some (first1 = last1 \<and> first2 \<noteq> last2))"
  by pat_completeness auto
termination
  by (relation "measure (\<lambda>(xs, first1, last1, ys, first2, last2). last1 - first1)") auto

section \<open>ReserveProxyObj\<close>

record ReserveProxyObj =
  capacity_to_reserve :: nat

definition Reserve_proxy :: "nat \<Rightarrow> ReserveProxyObj" where
  \<comment> \<open>the free function \<open>Reserve(size_t capacity)\<close>\<close>
  "Reserve_proxy capacity = \<lparr>capacity_to_reserve = capacity\<rparr>"

section \<open>SimpleVector\<close>

text \<open>
  The three data members \<open>items_\<close>, \<open>size_\<close> and \<open>capacity_\<close> of the class (a name
  cannot end in an underscore here, hence the prefix).

  What the model takes from the element type: \<open>Type()\<close> is the value \<open>d\<close>; copying and
  comparing elements are total and throw nothing, and a move leaves its source as
  \<open>moved_from\<close> says.
\<close>

record 'a SimpleVector =
  v_items :: "'a list"
  v_size :: nat
  v_capacity :: nat

text \<open>
  The representation invariant: the buffer has \<open>capacity_\<close> slots, of which the first
  \<open>size_\<close> are the elements, and the counters are values of \<open>size_t\<close>.
\<close>

definition wf :: "'a SimpleVector \<Rightarrow> bool" where
  "wf v \<longleftrightarrow> v_size v \<le> v_capacity v \<and> length (v_items v) = v_capacity v \<and> v_capacity v \<le> SIZE_MAX"

text \<open>The element sequence: the slots \<open>[0, size)\<close> of the buffer.\<close>

definition elems :: "'a SimpleVector \<Rightarrow> 'a list" where
  "elems v = take (v_size v) (v_items v)"

subsection \<open>Constructors\<close>

text \<open>
  A constructor runs on the object as its member initializers leave it; the default
  member initializers give the null buffer and \<open>size_ = capacity_ = 0\<close>.
\<close>

definition SimpleVector_default :: "'a SimpleVector" where
  \<comment> \<open>\<open>SimpleVector() noexcept = default\<close>\<close>
  "SimpleVector_default = \<lparr>v_items = [], v_size = 0, v_capacity = 0\<rparr>"

definition SimpleVector_copy ::
  "(nat \<Rightarrow> bool) \<Rightarrow> 'a \<Rightarrow> 'a SimpleVector \<Rightarrow> (unit, 'a SimpleVector) outcome" where
  \<comment> \<open>\<open>SimpleVector(const SimpleVector &other)\<close>\<close>
  "SimpleVector_copy avail d other =
     (let this = SimpleVector_default in
      case ArrayPtr_new avail d (v_capacity other) of
        None \<Rightarrow> Throws bad_alloc this
      | Some new_items \<Rightarrow>
          (case std_copy_to (v_items other) 0 (v_size other) new_items 0 of
             None \<Rightarrow> Undefined
           | Some new_items' \<Rightarrow>
               Returns () (this\<lparr>v_items := new_items', v_size := v_size other,
                                 v_capacity := v_capacity other\<rparr>)))"

definition SimpleVector_sized ::
  "(nat \<Rightarrow> bool) \<Rightarrow> 'a \<Rightarrow> nat \<Rightarrow> (unit, 'a SimpleVector) outcome" where
  \<comment> \<open>\<open>explicit SimpleVector(size_t size)\<close>\<close>
  "SimpleVector_sized avail d sz =
     (let this = \<lparr>v_items = [], v_size = sz, v_capacity = sz\<rparr> in
      case ArrayPtr_new avail d (v_capacity this) of
        None \<Rightarrow> Throws bad_alloc this
      | Some new_items \<Rightarrow>
          (case std_fill new_items 0 sz d of
             None \<Rightarrow> Undefined
           | Some new_items' \<Rightarrow> Returns () (this\<lparr>v_items := new_items'\<rparr>)))"

definition SimpleVector_filled ::
  "(nat \<Rightarrow> bool) \<Rightarrow> 'a \<Rightarrow> nat \<Rightarrow> 'a \<Rightarrow> (unit, 'a SimpleVector) outcome" where
  \<comment> \<open>\<open>SimpleVector(size_t size, const Type &value)\<close>\<close>
  "SimpleVector_filled avail d sz val =
     (let this = \<lparr>v_items = [], v_size = sz, v_capacity = sz\<rparr> in
      case ArrayPtr_new avail d (v_capacity this) of
        None \<Rightarrow> Throws bad_alloc this
      | Some new_items \<Rightarrow>
          (case std_fill new_items 0 sz val of
             None \<Rightarrow> Undefined
           | Some new_items' \<Rightarrow> Returns () (this\<lparr>v_items := new_items'\<rparr>)))"

definition SimpleVector_init ::
  "(nat \<Rightarrow> bool) \<Rightarrow> 'a \<Rightarrow> 'a list \<Rightarrow> (unit, 'a SimpleVector) outcome" where
  \<comment> \<open>\<open>SimpleVector(std::initializer_list<Type> init)\<close>\<close>
  "SimpleVector_init avail d init =
     (let this = SimpleVector_default; sz = length init in
      case ArrayPtr_new avail d sz of
        None \<Rightarrow> Throws bad_alloc this
      | Some new_items \<Rightarrow>
          (case std_copy_to init 0 (length init) new_items 0 of
             None \<Rightarrow> Undefined
           | Some new_items' \<Rightarrow>
               Returns () (this\<lparr>v_items := new_items', v_size := sz, v_capacity := sz\<rparr>)))"

definition SimpleVector_reserved ::
  "(nat \<Rightarrow> bool) \<Rightarrow> 'a \<Rightarrow> ReserveProxyObj \<Rightarrow> (unit, 'a SimpleVector) outcome" where
  \<comment> \<open>\<open>SimpleVector(ReserveProxyObj obj)\<close>\<close>
  "SimpleVector_reserved avail d obj =
     (let this = SimpleVector_default in
      case ArrayPtr_new avail d (capacity_to_reserve obj) of
        None \<Rightarrow> Throws bad_alloc this
      | Some new_items \<Rightarrow>
          (case std_fill new_items 0 (capacity_to_reserve obj) d of
             None \<Rightarrow> Undefined
           | Some new_items' \<Rightarrow>
               Returns () (this\<lparr>v_items := new_items',
                                 v_capacity := capacity_to_reserve obj\<rparr>)))"

definition SimpleVector_move :: "'a SimpleVector \<Rightarrow> 'a SimpleVector \<times> 'a SimpleVector" where
  \<comment> \<open>\<open>SimpleVector(SimpleVector &&other) noexcept\<close>: the new object and \<open>other\<close> afterwards;
      moving the buffer out of \<open>other.items_\<close> leaves it null\<close>
  "SimpleVector_move other =
     (let this = \<lparr>v_items = v_items other, v_size = v_size other,
                  v_capacity = v_capacity other\<rparr>;
          other1 = other\<lparr>v_items := []\<rparr>;
          other2 = other1\<lparr>v_size := 0\<rparr>;
          other3 = other2\<lparr>v_capacity := 0\<rparr>
      in (this, other3))"

subsection \<open>Observers\<close>

definition GetSize :: "'a SimpleVector \<Rightarrow> nat" where
  "GetSize v = v_size v"

definition GetCapacity :: "'a SimpleVector \<Rightarrow> nat" where
  "GetCapacity v = v_capacity v"

definition IsEmpty :: "'a SimpleVector \<Rightarrow> bool" where
  "IsEmpty v = (v_size v = 0)"

definition begin_it :: "'a SimpleVector \<Rightarrow> nat" where
  \<comment> \<open>\<open>begin()\<close>, \<open>cbegin()\<close>: \<open>items_.Get()\<close>, offset 0 of the buffer\<close>
  "begin_it v = 0"

definition end_it :: "'a SimpleVector \<Rightarrow> nat" where
  \<comment> \<open>\<open>end()\<close>, \<open>cend()\<close>: \<open>items_.Get() + size_\<close>\<close>
  "end_it v = begin_it v + v_size v"

definition index_op :: "'a SimpleVector \<Rightarrow> nat \<Rightarrow> ('a, 'a SimpleVector) outcome" where
  \<comment> \<open>\<open>operator[](size_t index)\<close>: the element referred to\<close>
  "index_op v index =
     (case ArrayPtr_get (v_items v) index of None \<Rightarrow> Undefined | Some x \<Rightarrow> Returns x v)"

definition At :: "'a SimpleVector \<Rightarrow> nat \<Rightarrow> ('a, 'a SimpleVector) outcome" where
  "At v index =
     (if index \<ge> v_size v then Throws out_of_range v
      else case ArrayPtr_get (v_items v) index of None \<Rightarrow> Undefined | Some x \<Rightarrow> Returns x v)"

subsection \<open>Arguments passed by reference\<close>

text \<open>
  PushBack and Insert take the element by reference (\<open>const Type &\<close> or \<open>Type &&\<close>)
  and read it only after they have reallocated and shifted. The object referred to is
  either outside the buffer of the vector the call is made on, and then it has one value
  throughout the call, or it is a slot of that buffer, as in \<open>v.Insert(v.begin(), v[1])\<close>.
  \<open>Slot i\<close> is the reference \<open>items_[i]\<close> taken before the call. \<open>Lvalue r\<close> selects the
  overload with \<open>const Type &\<close>, \<open>Rvalue r\<close> the overload with \<open>Type &&\<close>.
\<close>

datatype 'a ref = Outside 'a | Slot nat

datatype 'a arg = Lvalue "'a ref" | Rvalue "'a ref"

text \<open>The value of an argument that refers to an object outside the buffer.\<close>

fun outside :: "'a arg \<Rightarrow> 'a option" where
  "outside (Lvalue (Outside x)) = Some x"
| "outside (Rvalue (Outside x)) = Some x"
| "outside (Lvalue (Slot i)) = None"
| "outside (Rvalue (Slot i)) = None"

text \<open>The value an argument refers to when the call starts, on the buffer \<open>buf\<close>.\<close>

fun referent :: "'a list \<Rightarrow> 'a arg \<Rightarrow> 'a option" where
  "referent buf (Lvalue (Outside x)) = Some x"
| "referent buf (Rvalue (Outside x)) = Some x"
| "referent buf (Lvalue (Slot i)) = ArrayPtr_get buf i"
| "referent buf (Rvalue (Slot i)) = ArrayPtr_get buf i"

text \<open>
  Reserve allocates a new block and releases the old one exactly when it changes
  \<open>capacity_\<close> (it sets \<open>capacity_ = new_capacity\<close> in the branch
  \<open>new_capacity > capacity_\<close> that allocates, and nowhere else). After that a reference
  into the old block refers to released storage.
\<close>

definition buffer_replaced :: "'a SimpleVector \<Rightarrow> 'a SimpleVector \<Rightarrow> bool" where
  "buffer_replaced v v1 \<longleftrightarrow> v_capacity v1 \<noteq> v_capacity v"

text \<open>
  The assignment \<open>items_[index] = value\<close> (const Type &) or
  \<open>items_[index] = std::move(value)\<close> (Type &&) on the buffer \<open>buf\<close> as it is at that
  moment. \<open>released\<close> says that the buffer the argument may refer into has been
  released; reading it then is undefined behaviour (\<open>None\<close>), as is an access outside
  the buffer.
\<close>

fun assign_from ::
  "('a \<Rightarrow> 'a \<Rightarrow> 'a) \<Rightarrow> bool \<Rightarrow> 'a list \<Rightarrow> nat \<Rightarrow> 'a arg \<Rightarrow> 'a list option" where
  "assign_from moved_from released buf index (Lvalue (Outside x)) = ArrayPtr_put buf index x"
| "assign_from moved_from released buf index (Rvalue (Outside x)) = ArrayPtr_put buf index x"
| "assign_from moved_from released buf index (Lvalue (Slot i)) =
     (if released then None
      else case ArrayPtr_get buf i of
             None \<Rightarrow> None
           | Some x \<Rightarrow> ArrayPtr_put buf index x)"
| "assign_from moved_from released buf index (Rvalue (Slot i)) =
     (if released then None else move_assign moved_from buf index i)"

subsection \<open>Modifiers\<close>

definition Clear :: "'a SimpleVector \<Rightarrow> 'a SimpleVector" where
  "Clear v = v\<lparr>v_size := 0\<rparr>"

definition Reserve ::
  "(nat \<Rightarrow> bool) \<Rightarrow> ('a \<Rightarrow> 'a \<Rightarrow> 'a) \<Rightarrow> 'a \<Rightarrow> nat \<Rightarrow> 'a SimpleVector
     \<Rightarrow> (unit, 'a SimpleVector) outcome" where
  "Reserve avail moved_from d new_capacity v =
     (if new_capacity > v_capacity v then
        (case ArrayPtr_new avail d new_capacity of
           None \<Rightarrow> Throws bad_alloc v
         | Some new_items \<Rightarrow>
             (case std_move_to moved_from (v_items v) (begin_it v) (end_it v) new_items 0 of
                None \<Rightarrow> Undefined
              | Some (old_items, new_items') \<Rightarrow>
                  Returns () (v\<lparr>v_items := new_items', v_capacity := new_capacity\<rparr>)))
      else Returns () v)"

definition Resize ::
  "(nat \<Rightarrow> bool) \<Rightarrow> ('a \<Rightarrow> 'a \<Rightarrow> 'a) \<Rightarrow> 'a \<Rightarrow> nat \<Rightarrow> 'a SimpleVector
     \<Rightarrow> (unit, 'a SimpleVector) outcome" where
  "Resize avail moved_from d new_size v =
     (if new_size \<le> v_size v then Returns () (v\<lparr>v_size := new_size\<rparr>)
      else
        then_do (if new_size > v_capacity v then Reserve avail moved_from d new_size v
                 else Returns () v)
          (\<lambda>_ v1.
             case std_uninitialized_value_construct d (v_items v1) (end_it v1)
                    (begin_it v1 + new_size) of
               None \<Rightarrow> Undefined
             | Some buf \<Rightarrow> Returns () (v1\<lparr>v_items := buf, v_size := new_size\<rparr>)))"

definition PushBack ::
  "(nat \<Rightarrow> bool) \<Rightarrow> ('a \<Rightarrow> 'a \<Rightarrow> 'a) \<Rightarrow> 'a \<Rightarrow> 'a arg \<Rightarrow> 'a SimpleVector
     \<Rightarrow> (unit, 'a SimpleVector) outcome" where
  \<comment> \<open>\<open>PushBack(const Type &item)\<close> and \<open>PushBack(Type &&item)\<close>, which differ only
      in the assignment \<open>items_[size_] = item\<close> or \<open>items_[size_] = std::move(item)\<close>\<close>
  "PushBack avail moved_from d item v =
     then_do (if v_size v = v_capacity v
              then Reserve avail moved_from d
                     (if v_capacity v = 0 then 1 else size_t (v_capacity v * 2)) v
              else Returns () v)
       (\<lambda>_ v1.
          case assign_from moved_from (buffer_replaced v v1) (v_items v1) (v_size v1) item of
            None \<Rightarrow> Undefined
          | Some buf \<Rightarrow> Returns () (v1\<lparr>v_items := buf, v_size := size_t (v_size v1 + 1)\<rparr>))"

definition PopBack :: "'a SimpleVector \<Rightarrow> 'a SimpleVector" where
  "PopBack v = v\<lparr>v_size := v_size v - (if v_size v \<noteq> 0 then 1 else 0)\<rparr>"

definition Insert ::
  "(nat \<Rightarrow> bool) \<Rightarrow> ('a \<Rightarrow> 'a \<Rightarrow> 'a) \<Rightarrow> 'a \<Rightarrow> nat \<Rightarrow> 'a arg \<Rightarrow> 'a SimpleVector
     \<Rightarrow> (nat, 'a SimpleVector) outcome" where
  \<comment> \<open>\<open>Insert(ConstIterator pos, const Type &value)\<close> and
      \<open>Insert(ConstIterator pos, Type &&value)\<close>, which differ only in the assignment
      \<open>items_[index] = value\<close> or \<open>items_[index] = std::move(value)\<close>; \<open>pos\<close> and the
      returned iterator are offsets from \<open>begin()\<close>\<close>
  "Insert avail moved_from d pos val v =
     (let index = pos - begin_it v in
      then_do (if v_size v = v_capacity v
               then Reserve avail moved_from d
                      (if v_capacity v = 0 then 1 else size_t (v_capacity v * 2)) v
               else Returns () v)
        (\<lambda>_ v1.
           case std_move_backward moved_from (v_items v1) (begin_it v1 + index) (end_it v1)
                  (end_it v1 + 1) of
             None \<Rightarrow> Undefined
           | Some buf \<Rightarrow>
               (case assign_from moved_from (buffer_replaced v v1) buf index val of
                  None \<Rightarrow> Undefined
                | Some buf' \<Rightarrow>
                    Returns (begin_it v1 + index)
                      (v1\<lparr>v_items := buf', v_size := size_t (v_size v1 + 1)\<rparr>))))"

definition Erase ::
  "('a \<Rightarrow> 'a \<Rightarrow> 'a) \<Rightarrow> nat \<Rightarrow> 'a SimpleVector \<Rightarrow> (nat, 'a SimpleVector) outcome" where
  "Erase moved_from pos v =
     (let index = pos - begin_it v in
      case std_move moved_from (v_items v) (begin_it v + index + 1) (end_it v)
             (begin_it v + index) of
        None \<Rightarrow> Undefined
      | Some buf \<Rightarrow>
          Returns (begin_it v + index)
            (v\<lparr>v_items := buf, v_size := size_t (v_size v + 2 ^ 64 - 1)\<rparr>))"

text \<open>
  A sequence of PushBack calls on one vector, one call for each argument of the list;
  the memory system answers each of them by the same \<open>avail\<close>.
\<close>

fun PushBack_all ::
  "(nat \<Rightarrow> bool) \<Rightarrow> ('a \<Rightarrow> 'a \<Rightarrow> 'a) \<Rightarrow> 'a \<Rightarrow> 'a arg list \<Rightarrow> 'a SimpleVector
     \<Rightarrow> (unit, 'a SimpleVector) outcome" where
  "PushBack_all avail moved_from d [] v = Returns () v"
| "PushBack_all avail moved_from d (x # xs) v =
     then_do (PushBack avail moved_from d x v) (\<lambda>_ v1. PushBack_all avail moved_from d xs v1)"

subsection \<open>Operations on two vectors\<close>

text \<open>
  Assignment and swap take a second vector by reference, which may be the object itself
  (the assignments test \<open>this != &rhs\<close>). The objects live in a store from addresses to
  vectors; \<open>this\<close> and the argument are addresses. The assignments return \<open>*this\<close>.
\<close>

type_synonym 'a store = "nat \<Rightarrow> 'a SimpleVector"

definition assign_copy ::
  "(nat \<Rightarrow> bool) \<Rightarrow> 'a \<Rightarrow> nat \<Rightarrow> nat \<Rightarrow> 'a store \<Rightarrow> (nat, 'a store) outcome" where
  \<comment> \<open>\<open>operator=(const SimpleVector &rhs)\<close>\<close>
  "assign_copy avail d this rhs h =
     (if this \<noteq> rhs then
        (case ArrayPtr_new avail d (v_capacity (h rhs)) of
           None \<Rightarrow> Throws bad_alloc h
         | Some new_items \<Rightarrow>
             (case std_copy_to (v_items (h rhs)) 0 (v_size (h rhs)) new_items 0 of
                None \<Rightarrow> Undefined
              | Some new_items' \<Rightarrow>
                  Returns this
                    (h(this := (h this)\<lparr>v_items := new_items',
                                        v_capacity := v_capacity (h rhs),
                                        v_size := v_size (h rhs)\<rparr>))))
      else Returns this h)"

definition assign_move :: "nat \<Rightarrow> nat \<Rightarrow> 'a store \<Rightarrow> nat \<times> 'a store" where
  \<comment> \<open>\<open>operator=(SimpleVector &&other) noexcept\<close>; the move assignment of the buffer
      hands the block of \<open>other.items_\<close> to \<open>items_\<close> and leaves \<open>other.items_\<close> null\<close>
  "assign_move this other h =
     (if this \<noteq> other then
        (let h1 = h(this := (h this)\<lparr>v_items := v_items (h other)\<rparr>,
                    other := (h other)\<lparr>v_items := []\<rparr>);
             h2 = h1(this := (h1 this)\<lparr>v_size := v_size (h1 other)\<rparr>);
             h3 = h2(this := (h2 this)\<lparr>v_capacity := v_capacity (h2 other)\<rparr>);
             h4 = h3(other := (h3 other)\<lparr>v_size := 0\<rparr>);
             h5 = h4(other := (h4 other)\<lparr>v_capacity := 0\<rparr>)
         in (this, h5))
      else (this, h))"

definition swap :: "nat \<Rightarrow> nat \<Rightarrow> 'a store \<Rightarrow> 'a store" where
  \<comment> \<open>\<open>swap(SimpleVector &other) noexcept\<close>: the three members are exchanged in turn\<close>
  "swap this other h =
     (let h1 = h(this := (h this)\<lparr>v_items := v_items (h other)\<rparr>,
                 other := (h other)\<lparr>v_items := v_items (h this)\<rparr>);
          h2 = h1(this := (h1 this)\<lparr>v_size := v_size (h1 other)\<rparr>,
                  other := (h1 other)\<lparr>v_size := v_size (h1 this)\<rparr>);
          h3 = h2(this := (h2 this)\<lparr>v_capacity := v_capacity (h2 other)\<rparr>,
                  other := (h2 other)\<lparr>v_capacity := v_capacity (h2 this)\<rparr>)
      in h3)"

subsection \<open>Comparison operators\<close>

text \<open>
  The operands are read only; the result is \<open>None\<close> where the comparison reads outside
  a buffer. \<open>==\<close> of Type is equality of values and \<open><\<close> of Type is the order of
  the element type.
\<close>

definition operator_eq :: "'a SimpleVector \<Rightarrow> 'a SimpleVector \<Rightarrow> bool option" where
  "operator_eq lhs rhs =
     std_equal (v_items lhs) (begin_it lhs) (end_it lhs) (v_items rhs) (begin_it rhs) (end_it rhs)"

definition operator_ne :: "'a SimpleVector \<Rightarrow> 'a SimpleVector \<Rightarrow> bool option" where
  "operator_ne lhs rhs = map_option Not (operator_eq lhs rhs)"

definition operator_lt :: "('a::ord) SimpleVector \<Rightarrow> 'a SimpleVector \<Rightarrow> bool option" where
  "operator_lt lhs rhs =
     std_lexicographical_compare (v_items lhs) (begin_it lhs) (end_it lhs)
       (v_items rhs) (begin_it rhs) (end_it rhs)"

definition operator_le :: "('a::ord) SimpleVector \<Rightarrow> 'a SimpleVector \<Rightarrow> bool option" where
  "operator_le lhs rhs = map_option Not (operator_lt rhs lhs)"

definition operator_gt :: "('a::ord) SimpleVector \<Rightarrow> 'a SimpleVector \<Rightarrow> bool option" where
  "operator_gt lhs rhs = operator_lt rhs lhs"

definition operator_ge :: "('a::ord) SimpleVector \<Rightarrow> 'a SimpleVector \<Rightarrow> bool option" where
  "operator_ge lhs rhs = map_option Not (operator_lt lhs rhs)"

section \<open>What a call leaves behind\<close>

text \<open>
  \<open>leaves P out\<close>: the state in which the call ends, by return or by exception,
  satisfies \<open>P\<close> (nothing can be said after undefined behaviour).
  \<open>constructs P out\<close>: the object a constructor returns satisfies \<open>P\<close> (a constructor
  that throws leaves no object).
\<close>

definition leaves :: "('s \<Rightarrow> bool) \<Rightarrow> ('r, 's) outcome \<Rightarrow> bool" where
  "leaves P out = (case out of Returns r s \<Rightarrow> P s | Throws e s \<Rightarrow> P s | Undefined \<Rightarrow> True)"

definition constructs :: "('s \<Rightarrow> bool) \<Rightarrow> ('r, 's) outcome \<Rightarrow> bool" where
  "constructs P out = (case out of Returns r s \<Rightarrow> P s | Throws e s \<Rightarrow> True | Undefined \<Rightarrow> True)"

section \<open>Properties of the standard algorithms\<close>

text \<open>
  The loops are unfolded by hand, one step at a time, in the proofs below.
\<close>

declare std_move.simps [simp del] std_move_backward.simps [simp del] std_move_to.simps [simp del]
  std_copy_to.simps [simp del] std_fill.simps [simp del] std_equal_loop.simps [simp del]
  std_lexicographical_compare.simps [simp del]

lemma std_copy_to_ok:
  "first \<le> lst \<Longrightarrow> lst \<le> length src \<Longrightarrow> d_first + (lst - first) \<le> length dst \<Longrightarrow>
   std_copy_to src first lst dst d_first =
     Some (take d_first dst @ take (lst - first) (drop first src)
             @ drop (d_first + (lst - first)) dst)"
proof (induction src first lst dst d_first rule: std_copy_to.induct)
  case (1 src first lst dst d_first)
  show ?case
  proof (cases "first < lst")
    case True
    let ?dst' = "dst[d_first := src ! first]"
    have inb: "first < length src" "d_first < length dst"
      using True 1(2-) by auto
    have ih: "std_copy_to src (first + 1) lst ?dst' (d_first + 1) =
          Some (take (d_first + 1) ?dst' @ take (lst - (first + 1)) (drop (first + 1) src)
                 @ drop (d_first + 1 + (lst - (first + 1))) ?dst')"
      using 1 True inb by simp
    have a: "take (d_first + 1) ?dst' = take d_first dst @ [src ! first]"
      using inb by (simp add: take_Suc_conv_app_nth)
    have "d_first + 1 + (lst - (first + 1)) = d_first + (lst - first)"
      using True by arith
    then have b: "drop (d_first + 1 + (lst - (first + 1))) ?dst' = drop (d_first + (lst - first)) dst"
      by (simp del: One_nat_def add_Suc add_Suc_right)
    have "lst - first = Suc (lst - (first + 1))"
      using True by arith
    moreover have "drop first src = src ! first # drop (Suc first) src"
      using inb by (simp add: Cons_nth_drop_Suc)
    ultimately have c: "take (lst - first) (drop first src) =
             src ! first # take (lst - (first + 1)) (drop (first + 1) src)"
      by simp
    show ?thesis
      using True inb ih a b c by (subst std_copy_to.simps) simp
  next
    case False
    then show ?thesis using 1(2-) by (subst std_copy_to.simps) simp
  qed
qed

lemma std_move_to_ok:
  "first \<le> lst \<Longrightarrow> lst \<le> length src \<Longrightarrow> d_first + (lst - first) \<le> length dst \<Longrightarrow>
   \<exists>src'. std_move_to moved_from src first lst dst d_first =
     Some (src', take d_first dst @ take (lst - first) (drop first src)
             @ drop (d_first + (lst - first)) dst)"
proof (induction moved_from src first lst dst d_first rule: std_move_to.induct)
  case (1 moved_from src first lst dst d_first)
  show ?case
  proof (cases "first < lst")
    case True
    let ?dst' = "dst[d_first := src ! first]"
    let ?src' = "src[first := moved_from (src ! first) (dst ! d_first)]"
    have inb: "first < length src" "d_first < length dst"
      using True 1(2-) by auto
    have "\<exists>src'. std_move_to moved_from ?src' (first + 1) lst ?dst' (d_first + 1) =
          Some (src', take (d_first + 1) ?dst' @ take (lst - (first + 1)) (drop (first + 1) ?src')
                 @ drop (d_first + 1 + (lst - (first + 1))) ?dst')"
      using 1 True inb by simp
    then obtain src' where ih: "std_move_to moved_from ?src' (first + 1) lst ?dst' (d_first + 1) =
          Some (src', take (d_first + 1) ?dst' @ take (lst - (first + 1)) (drop (first + 1) ?src')
                 @ drop (d_first + 1 + (lst - (first + 1))) ?dst')" ..
    have a: "take (d_first + 1) ?dst' = take d_first dst @ [src ! first]"
      using inb by (simp add: take_Suc_conv_app_nth)
    have "d_first + 1 + (lst - (first + 1)) = d_first + (lst - first)"
      using True by arith
    then have b: "drop (d_first + 1 + (lst - (first + 1))) ?dst' = drop (d_first + (lst - first)) dst"
      by (simp del: One_nat_def add_Suc add_Suc_right)
    have "lst - first = Suc (lst - (first + 1))"
      using True by arith
    moreover have "drop first src = src ! first # drop (Suc first) src"
      using inb by (simp add: Cons_nth_drop_Suc)
    ultimately have c: "take (lst - first) (drop first src) =
             src ! first # take (lst - (first + 1)) (drop (first + 1) src)"
      by simp
    have d: "drop (first + 1) ?src' = drop (first + 1) src"
      by simp
    show ?thesis
      using True inb ih a b c d by (subst std_move_to.simps) simp
  next
    case False
    then show ?thesis using 1(2-) by (subst std_move_to.simps) simp
  qed
qed

lemma std_move_backward_ok:
  "first \<le> lst \<Longrightarrow> lst < length buf \<Longrightarrow>
   \<exists>r. std_move_backward moved_from buf first lst (lst + 1) = Some r \<and>
       length r = length buf \<and>
       (\<forall>k. k < first \<longrightarrow> r ! k = buf ! k) \<and>
       (\<forall>k. first \<le> k \<and> k < lst \<longrightarrow> r ! (k + 1) = buf ! k) \<and>
       (\<forall>k. lst < k \<and> k < length buf \<longrightarrow> r ! k = buf ! k)"
proof (induction lst arbitrary: buf)
  case 0
  then show ?case by (subst std_move_backward.simps) auto
next
  case (Suc l)
  show ?case
  proof (cases "first = Suc l")
    case True
    then show ?thesis by (subst std_move_backward.simps) auto
  next
    case False
    with Suc.prems have lt: "first \<le> l" "first < Suc l" by auto
    let ?buf' = "buf[Suc l := buf ! l, l := moved_from (buf ! l) (buf ! Suc l)]"
    have ma: "move_assign moved_from buf (Suc l) l = Some ?buf'"
      using Suc.prems by (simp add: move_assign_def)
    have "l < length ?buf'" using Suc.prems by simp
    from Suc.IH [OF lt(1) this]
    obtain r where r: "std_move_backward moved_from ?buf' first l (l + 1) = Some r"
      "length r = length ?buf'"
      "\<forall>k. k < first \<longrightarrow> r ! k = ?buf' ! k"
      "\<forall>k. first \<le> k \<and> k < l \<longrightarrow> r ! (k + 1) = ?buf' ! k"
      "\<forall>k. l < k \<and> k < length ?buf' \<longrightarrow> r ! k = ?buf' ! k"
      by blast
    have step: "std_move_backward moved_from buf first (Suc l) (Suc l + 1) = Some r"
      using lt ma r(1) by (subst std_move_backward.simps) simp
    have p1: "\<forall>k. k < first \<longrightarrow> r ! k = buf ! k"
      using r(3) lt by simp
    have p2: "\<forall>k. first \<le> k \<and> k < Suc l \<longrightarrow> r ! (k + 1) = buf ! k"
    proof (intro allI impI)
      fix k assume k: "first \<le> k \<and> k < Suc l"
      show "r ! (k + 1) = buf ! k"
      proof (cases "k = l")
        case True
        then show ?thesis using r(5) Suc.prems by simp
      next
        case False
        then show ?thesis using r(4) k by simp
      qed
    qed
    have p3: "\<forall>k. Suc l < k \<and> k < length buf \<longrightarrow> r ! k = buf ! k"
      using r(5) by simp
    show ?thesis using step r(2) p1 p2 p3 by simp
  qed
qed

lemma std_move_ok:
  "0 < first \<Longrightarrow> first \<le> lst \<Longrightarrow> lst \<le> length buf \<Longrightarrow>
   \<exists>r. std_move moved_from buf first lst (first - 1) = Some r \<and>
       length r = length buf \<and>
       (\<forall>k. k < first - 1 \<longrightarrow> r ! k = buf ! k) \<and>
       (\<forall>k. first \<le> k \<and> k < lst \<longrightarrow> r ! (k - 1) = buf ! k) \<and>
       (\<forall>k. lst \<le> k \<and> k < length buf \<longrightarrow> r ! k = buf ! k)"
proof (induction n \<equiv> "lst - first" arbitrary: first buf)
  case 0
  then show ?case by (subst std_move.simps) auto
next
  case (Suc n)
  then have lt: "first < lst" "first < length buf" "first - 1 < length buf" by auto
  let ?buf' = "buf[first - 1 := buf ! first, first := moved_from (buf ! first) (buf ! (first - 1))]"
  have ma: "move_assign moved_from buf (first - 1) first = Some ?buf'"
    using lt by (simp add: move_assign_def)
  have "n = lst - (first + 1)" "0 < first + 1" "first + 1 \<le> lst" "lst \<le> length ?buf'"
    using Suc by auto
  from Suc(1) [OF this]
  obtain r where r: "std_move moved_from ?buf' (first + 1) lst (first + 1 - 1) = Some r"
      "length r = length ?buf'"
      "\<forall>k. k < first + 1 - 1 \<longrightarrow> r ! k = ?buf' ! k"
      "\<forall>k. first + 1 \<le> k \<and> k < lst \<longrightarrow> r ! (k - 1) = ?buf' ! k"
      "\<forall>k. lst \<le> k \<and> k < length ?buf' \<longrightarrow> r ! k = ?buf' ! k"
    by blast
  have step: "std_move moved_from buf first lst (first - 1) = Some r"
    using lt ma r(1) Suc.prems by (subst std_move.simps) simp
  have p1: "\<forall>k. k < first - 1 \<longrightarrow> r ! k = buf ! k"
    using r(3) by simp
  have p2: "\<forall>k. first \<le> k \<and> k < lst \<longrightarrow> r ! (k - 1) = buf ! k"
  proof (intro allI impI)
    fix k assume k: "first \<le> k \<and> k < lst"
    show "r ! (k - 1) = buf ! k"
    proof (cases "k = first")
      case True
      have "r ! (first - 1) = ?buf' ! (first - 1)" using r(3) Suc.prems by simp
      then show ?thesis using True lt Suc.prems by simp
    next
      case False
      then have "first + 1 \<le> k" "k \<noteq> first - 1" using k Suc.prems by auto
      then show ?thesis using r(4) k False by simp
    qed
  qed
  have p3: "\<forall>k. lst \<le> k \<and> k < length buf \<longrightarrow> r ! k = buf ! k"
    using r(5) lt by (auto simp: nth_list_update)
  show ?case using step r(2) p1 p2 p3 by simp
qed

section \<open>Reserve\<close>

lemma size_t_id: "n \<le> SIZE_MAX \<Longrightarrow> size_t n = n"
  by (simp add: size_t_def SIZE_MAX_def)

lemma Reserve_noop: "new_capacity \<le> v_capacity v \<Longrightarrow> Reserve avail moved_from d new_capacity v = Returns () v"
  by (simp add: Reserve_def)

lemma Reserve_fail:
  "v_capacity v < new_capacity \<Longrightarrow> \<not> avail new_capacity \<Longrightarrow>
   Reserve avail moved_from d new_capacity v = Throws bad_alloc v"
  by (simp add: Reserve_def ArrayPtr_new_def)

lemma Reserve_grow:
  assumes "wf v" "v_capacity v < new_capacity" "avail new_capacity"
  shows "Reserve avail moved_from d new_capacity v =
         Returns () (v\<lparr>v_items := elems v @ replicate (new_capacity - v_size v) d,
                       v_capacity := new_capacity\<rparr>)"
proof -
  have new: "ArrayPtr_new avail d new_capacity = Some (replicate new_capacity d)"
    using assms by (simp add: ArrayPtr_new_def)
  have "\<exists>src'. std_move_to moved_from (v_items v) 0 (v_size v) (replicate new_capacity d) 0 =
     Some (src', take 0 (replicate new_capacity d) @ take (v_size v - 0) (drop 0 (v_items v))
             @ drop (0 + (v_size v - 0)) (replicate new_capacity d))"
    using assms by (intro std_move_to_ok) (simp_all add: wf_def)
  then obtain src' where "std_move_to moved_from (v_items v) 0 (v_size v) (replicate new_capacity d) 0 =
     Some (src', elems v @ replicate (new_capacity - v_size v) d)"
    by (auto simp: elems_def)
  then show ?thesis
    using assms new by (simp add: Reserve_def begin_it_def end_it_def)
qed

lemma Reserve_Throws:
  "Reserve avail moved_from d new_capacity v = Throws e v' \<Longrightarrow> e = bad_alloc \<and> v' = v"
  by (auto simp: Reserve_def split: if_splits option.splits)

lemma Reserve_cases:
  assumes "wf v"
  shows "Reserve avail moved_from d n v =
     (if n \<le> v_capacity v then Returns () v
      else if avail n then
        Returns () (v\<lparr>v_items := elems v @ replicate (n - v_size v) d, v_capacity := n\<rparr>)
      else Throws bad_alloc v)"
  using assms by (simp add: Reserve_noop Reserve_fail Reserve_grow)

lemma Reserve_Returns_size:
  "Reserve avail moved_from d n v = Returns r v1 \<Longrightarrow> v_size v1 = v_size v"
  by (auto simp: Reserve_def split: if_splits option.splits)

lemma std_move_backward_empty:
  "std_move_backward moved_from buf first first d_last = Some buf"
  by (subst std_move_backward.simps) simp

section \<open>The growth step and Erase\<close>

lemma growth_no_overflow:
  "2 * c \<le> SIZE_MAX \<Longrightarrow> (if c = 0 then 1 else size_t (c * 2)) = max 1 (2 * c)"
  by (auto simp: size_t_def SIZE_MAX_def mult.commute)

lemma growth_overflow:
  assumes "c \<le> SIZE_MAX" "SIZE_MAX < 2 * c"
  shows "(if c = 0 then 1 else size_t (c * 2)) \<le> c"
proof -
  have "c \<noteq> 0" using assms by auto
  moreover have "c * 2 mod 2 ^ 64 = c * 2 - 2 ^ 64"
  proof -
    have "(2::nat) ^ 64 \<le> c * 2" using assms by (simp add: SIZE_MAX_def)
    then have "c * 2 mod 2 ^ 64 = (c * 2 - 2 ^ 64) mod 2 ^ 64"
      by (rule le_mod_geq)
    moreover have "c * 2 - 2 ^ 64 < (2::nat) ^ 64"
      using assms by (simp add: SIZE_MAX_def)
    ultimately show ?thesis by simp
  qed
  moreover have "c * 2 - 2 ^ 64 \<le> c"
    using assms by (simp add: SIZE_MAX_def)
  ultimately show ?thesis by (simp add: size_t_def)
qed

lemma wf_Reserve_grow:
  assumes "wf v" "v_capacity v < n" "n \<le> SIZE_MAX"
  shows "wf (v\<lparr>v_items := elems v @ replicate (n - v_size v) d, v_capacity := n\<rparr>)"
    and "elems (v\<lparr>v_items := elems v @ replicate (n - v_size v) d, v_capacity := n\<rparr>) = elems v"
  using assms by (auto simp: wf_def elems_def)

lemma size_t_dec:
  assumes "0 < n" "n \<le> SIZE_MAX"
  shows "size_t (n + 2 ^ 64 - 1) = n - 1"
proof -
  obtain m where m: "n = Suc m" using assms(1) by (cases n) auto
  then have "n + 2 ^ 64 - 1 = m + 2 ^ 64" by simp
  moreover have "m < 2 ^ 64" using assms(2) m by (simp add: SIZE_MAX_def)
  ultimately have "size_t (n + 2 ^ 64 - 1) = m" by (simp add: size_t_def)
  then show ?thesis using m by simp
qed

lemma Erase_ok:
  assumes "wf v" "pos < v_size v"
  shows "\<exists>v'. Erase moved_from pos v = Returns pos v' \<and> wf v' \<and>
           v_capacity v' = v_capacity v \<and> v_size v' = v_size v - 1 \<and>
           elems v' = take pos (elems v) @ drop (pos + 1) (elems v)"
proof -
  let ?buf = "v_items v" and ?n = "v_size v"
  have len: "length ?buf = v_capacity v" and cap: "v_capacity v \<le> SIZE_MAX"
    and sz: "?n \<le> v_capacity v"
    using assms by (simp_all add: wf_def)
  have "0 < pos + 1" "pos + 1 \<le> ?n" "?n \<le> length ?buf"
    using assms len sz by simp_all
  from std_move_ok [OF this, of moved_from]
  obtain r where r: "std_move moved_from ?buf (pos + 1) ?n pos = Some r"
      "length r = length ?buf"
      "\<forall>k. k < pos \<longrightarrow> r ! k = ?buf ! k"
      "\<forall>k. pos + 1 \<le> k \<and> k < ?n \<longrightarrow> r ! (k - 1) = ?buf ! k"
    by auto
  have dec: "size_t (?n + 2 ^ 64 - 1) = ?n - 1"
    using assms(2) sz cap by (intro size_t_dec) simp_all
  let ?v' = "v\<lparr>v_items := r, v_size := ?n - 1\<rparr>"
  have run: "Erase moved_from pos v = Returns pos ?v'"
    using r(1) dec by (simp add: Erase_def begin_it_def end_it_def Let_def)
  have wf': "wf ?v'"
    using sz len cap r(2) by (auto simp: wf_def)
  have el: "elems ?v' = take pos (elems v) @ drop (pos + 1) (elems v)"
  proof (rule nth_equalityI)
    show "length (elems ?v') = length (take pos (elems v) @ drop (pos + 1) (elems v))"
      using assms r(2) len sz by (simp add: elems_def)
  next
    fix k assume "k < length (elems ?v')"
    then have k: "k < ?n - 1" by (simp add: elems_def)
    show "elems ?v' ! k = (take pos (elems v) @ drop (pos + 1) (elems v)) ! k"
    proof (cases "k < pos")
      case True
      then show ?thesis
        using k r(2,3) assms len sz by (simp add: elems_def nth_append)
    next
      case False
      then have "pos + 1 \<le> k + 1 \<and> k + 1 < ?n" using k by simp
      then have "r ! (k + 1 - 1) = ?buf ! (k + 1)" using r(4) by blast
      moreover have "(take pos (elems v) @ drop (pos + 1) (elems v)) ! k = ?buf ! (k + 1)"
        using False k assms len sz by (simp add: elems_def nth_append)
      ultimately show ?thesis
        using False k sz len r(2) by (simp add: elems_def)
    qed
  qed
  show ?thesis using run wf' el by auto
qed

lemma Erase_Returns_iff:
  assumes "wf v"
  shows "(\<exists>it v'. Erase moved_from pos v = Returns it v') \<longleftrightarrow> pos < v_size v"
proof (cases "pos < v_size v")
  case True
  from Erase_ok [OF assms this, of moved_from] show ?thesis using True by auto
next
  case False
  then have "std_move moved_from (v_items v) (pos + 1) (v_size v) pos = None"
    by (subst std_move.simps) simp
  then show ?thesis
    using False by (simp add: Erase_def begin_it_def end_it_def)
qed

section \<open>Evaluation on concrete vectors\<close>

text \<open>
  Two rewrite rules that let the simplifier run the model on buffers written out as
  literal lists, and the definitions it has to unfold for that.
\<close>

lemma replicate_literal:
  "replicate (numeral n) a = a # replicate (numeral n - 1) a"
  by (simp add: numeral_eq_Suc)

lemma list_update_literal:
  "(a # buf)[numeral n := b] = a # buf[numeral n - 1 := b]"
  by (simp add: numeral_eq_Suc)

lemmas run_simps =
  Reserve_def ArrayPtr_new_def ArrayPtr_put_def ArrayPtr_get_def move_assign_def size_t_def
  begin_it_def end_it_def std_move_to.simps std_move_backward.simps std_move.simps
  std_fill.simps std_copy_to.simps replicate_literal list_update_literal buffer_replaced_def

section \<open>Outcomes\<close>

lemma discard_Returns_iff: "discard out = Returns r s \<longleftrightarrow> (\<exists>q. out = Returns q s)"
  by (cases out) auto

section \<open>Resize\<close>

lemma std_fill_ok:
  "first \<le> lst \<Longrightarrow> lst \<le> length buf \<Longrightarrow>
   std_fill buf first lst x = Some (take first buf @ replicate (lst - first) x @ drop lst buf)"
proof (induction buf first lst x rule: std_fill.induct)
  case (1 buf first lst val)
  show ?case
  proof (cases "first < lst")
    case True
    then have put: "ArrayPtr_put buf first val = Some (buf[first := val])"
      using 1 by (simp add: ArrayPtr_put_def)
    have "std_fill (buf[first := val]) (first + 1) lst val =
          Some (take (first + 1) (buf[first := val]) @ replicate (lst - (first + 1)) val
                 @ drop lst (buf[first := val]))"
      using 1 True put by simp
    moreover have "take (first + 1) (buf[first := val]) = take first buf @ [val]"
      using True 1 by (simp add: take_Suc_conv_app_nth)
    moreover have "drop lst (buf[first := val]) = drop lst buf"
      using True by simp
    moreover have "replicate (lst - first) val = val # replicate (lst - (first + 1)) val"
      using True by (cases "lst - first") auto
    ultimately show ?thesis
      using True put by (subst std_fill.simps) simp
  next
    case False
    then show ?thesis using 1 by (subst std_fill.simps) simp
  qed
qed

lemma Resize_shrink:
  "n \<le> v_size v \<Longrightarrow> Resize avail moved_from d n v = Returns () (v\<lparr>v_size := n\<rparr>)"
  by (simp add: Resize_def)

lemma Resize_grow_room:
  assumes "wf v" "v_size v < n" "n \<le> v_capacity v"
  shows "Resize avail moved_from d n v =
         Returns () (v\<lparr>v_items := elems v @ replicate (n - v_size v) d @ drop n (v_items v),
                       v_size := n\<rparr>)"
proof -
  have "v_size v \<le> n" "n \<le> length (v_items v)"
    using assms by (simp_all add: wf_def)
  then have "std_fill (v_items v) (v_size v) n d =
      Some (take (v_size v) (v_items v) @ replicate (n - v_size v) d @ drop n (v_items v))"
    by (rule std_fill_ok)
  then show ?thesis
    using assms(2,3)
    by (simp add: Resize_def std_uninitialized_value_construct_def begin_it_def end_it_def
          elems_def)
qed

lemma Resize_grow_alloc:
  assumes "wf v" "v_capacity v < n" "avail n"
  shows "Resize avail moved_from d n v =
         Returns () (v\<lparr>v_items := elems v @ replicate (n - v_size v) d,
                       v_size := n, v_capacity := n\<rparr>)"
proof -
  let ?buf = "elems v @ replicate (n - v_size v) d"
  have sz: "v_size v \<le> v_capacity v" and len: "length (elems v) = v_size v"
    using assms by (simp_all add: wf_def elems_def)
  have res: "Reserve avail moved_from d n v = Returns () (v\<lparr>v_items := ?buf, v_capacity := n\<rparr>)"
    using assms by (rule Reserve_grow)
  have "v_size v \<le> n" "n \<le> length ?buf"
    using assms(2) sz len by simp_all
  then have "std_fill ?buf (v_size v) n d =
      Some (take (v_size v) ?buf @ replicate (n - v_size v) d @ drop n ?buf)"
    by (rule std_fill_ok)
  moreover have "take (v_size v) ?buf @ replicate (n - v_size v) d @ drop n ?buf = ?buf"
    using assms(2) sz len by simp
  ultimately have fill: "std_fill ?buf (v_size v) n d = Some ?buf" by simp
  show ?thesis
    using assms(2) sz res fill
    by (simp add: Resize_def std_uninitialized_value_construct_def begin_it_def end_it_def)
qed

lemma Resize_fail:
  assumes "v_size v < n" "v_capacity v < n" "\<not> avail n"
  shows "Resize avail moved_from d n v = Throws bad_alloc v"
  using assms by (simp add: Resize_def Reserve_fail)

lemma Resize_Throws:
  "Resize avail moved_from d n v = Throws e v' \<Longrightarrow> e = bad_alloc \<and> v' = v"
  by (auto simp: Resize_def dest: Reserve_Throws split: if_splits option.splits
      elim!: then_do.elims)

lemma Resize_Returns_iff:
  assumes "wf v"
  shows "(\<exists>r v'. Resize avail moved_from d n v = Returns r v') \<longleftrightarrow> n \<le> v_capacity v \<or> avail n"
proof -
  have sz: "v_size v \<le> v_capacity v" using assms by (simp add: wf_def)
  consider "n \<le> v_size v" | "v_size v < n" "n \<le> v_capacity v"
    | "v_capacity v < n" "avail n" | "v_capacity v < n" "\<not> avail n"
    by linarith
  then show ?thesis
  proof cases
    case 1
    then show ?thesis using sz by (simp add: Resize_shrink)
  next
    case 2
    then show ?thesis using assms by (simp add: Resize_grow_room)
  next
    case 3
    then show ?thesis using assms by (simp add: Resize_grow_alloc)
  next
    case 4
    then show ?thesis using sz by (simp add: Resize_fail)
  qed
qed

lemma Resize_Returns:
  assumes "wf v" "n \<le> SIZE_MAX" "Resize avail moved_from d n v = Returns r v'"
  shows "wf v'" "v_size v' = n"
    "v_capacity v' = (if v_capacity v < n then n else v_capacity v)"
    "elems v' = take n (elems v) @ replicate (n - v_size v) d"
proof -
  have sz: "v_size v \<le> v_capacity v" and len: "length (v_items v) = v_capacity v"
    using assms by (simp_all add: wf_def)
  have ok: "n \<le> v_capacity v \<or> avail n"
    using Resize_Returns_iff [OF assms(1), of avail moved_from d n] assms(3) by blast
  have "wf v' \<and> v_size v' = n \<and>
    v_capacity v' = (if v_capacity v < n then n else v_capacity v) \<and>
    elems v' = take n (elems v) @ replicate (n - v_size v) d"
  proof -
    consider "n \<le> v_size v" | "v_size v < n" "n \<le> v_capacity v" | "v_capacity v < n" "avail n"
      using ok by linarith
    then show ?thesis
    proof cases
      case 1
      then show ?thesis
        using assms sz len by (auto simp: Resize_shrink wf_def elems_def min_def)
    next
      case 2
      then show ?thesis
        using assms sz len by (auto simp: Resize_grow_room wf_def elems_def)
    next
      case 3
      then show ?thesis
        using assms sz len by (auto simp: Resize_grow_alloc wf_def elems_def)
    qed
  qed
  then show "wf v'" "v_size v' = n"
    "v_capacity v' = (if v_capacity v < n then n else v_capacity v)"
    "elems v' = take n (elems v) @ replicate (n - v_size v) d"
    by blast+
qed

lemma Reserve_Returns:
  assumes "wf v" "n \<le> SIZE_MAX" "Reserve avail moved_from d n v = Returns r v'"
  shows "wf v'" "v_size v' = v_size v"
    "v_capacity v' = (if v_capacity v < n then n else v_capacity v)"
    "elems v' = elems v"
proof -
  have "wf v' \<and> v_size v' = v_size v \<and>
    v_capacity v' = (if v_capacity v < n then n else v_capacity v) \<and> elems v' = elems v"
  proof (cases "v_capacity v < n")
    case True
    then have "avail n"
      using assms(3) by (auto simp: Reserve_def ArrayPtr_new_def split: if_splits)
    then show ?thesis
      using assms True wf_Reserve_grow [OF assms(1) True assms(2), of d]
      by (auto simp: Reserve_grow)
  next
    case False
    then show ?thesis using assms by (simp add: Reserve_noop)
  qed
  then show "wf v'" "v_size v' = v_size v"
    "v_capacity v' = (if v_capacity v < n then n else v_capacity v)"
    "elems v' = elems v"
    by blast+
qed

lemma Reserve_Returns_iff:
  assumes "wf v"
  shows "(\<exists>r v'. Reserve avail moved_from d n v = Returns r v') \<longleftrightarrow>
         n \<le> v_capacity v \<or> avail n"
  using assms by (auto simp: Reserve_cases)

section \<open>Comparison\<close>

lemma take_drop_step:
  assumes "first < lst" "lst \<le> length xs"
  shows "take (lst - first) (drop first xs) =
         xs ! first # take (lst - (first + 1)) (drop (first + 1) xs)"
proof -
  have "lst - first = Suc (lst - (first + 1))" using assms by arith
  moreover have "drop first xs = xs ! first # drop (Suc first) xs"
    using assms by (simp add: Cons_nth_drop_Suc)
  ultimately show ?thesis by simp
qed

lemma std_equal_loop_ok:
  "first1 \<le> last1 \<Longrightarrow> last1 \<le> length xs \<Longrightarrow> first2 + (last1 - first1) \<le> length ys \<Longrightarrow>
   std_equal_loop xs first1 last1 ys first2 =
     Some (take (last1 - first1) (drop first1 xs) = take (last1 - first1) (drop first2 ys))"
proof (induction xs first1 last1 ys first2 rule: std_equal_loop.induct)
  case (1 xs first1 last1 ys first2)
  show ?case
  proof (cases "first1 < last1")
    case True
    have inb: "first1 < length xs" "first2 < length ys"
      using True 1(2-) by auto
    have l: "take (last1 - first1) (drop first1 xs) =
             xs ! first1 # take (last1 - (first1 + 1)) (drop (first1 + 1) xs)"
      using True 1(3) by (rule take_drop_step)
    have "first2 < first2 + (last1 - first1)" "first2 + (last1 - first1) \<le> length ys"
      using True 1(4) by simp_all
    from take_drop_step [OF this]
    have r: "take (last1 - first1) (drop first2 ys) =
             ys ! first2 # take (last1 - (first1 + 1)) (drop (first2 + 1) ys)"
      using True by simp
    show ?thesis
    proof (cases "xs ! first1 = ys ! first2")
      case False
      then show ?thesis
        using True inb l r by (subst std_equal_loop.simps) (simp add: ArrayPtr_get_def)
    next
      case eq: True
      have "std_equal_loop xs (first1 + 1) last1 ys (first2 + 1) =
            Some (take (last1 - (first1 + 1)) (drop (first1 + 1) xs) =
                  take (last1 - (first1 + 1)) (drop (first2 + 1) ys))"
        using 1(1) [OF True, of "Some (xs ! first1)" "Some (ys ! first2)" "xs ! first1" "ys ! first2"]
          True inb eq 1(2-)
        by (simp add: ArrayPtr_get_def)
      then show ?thesis
        using True inb l r eq by (subst std_equal_loop.simps) (simp add: ArrayPtr_get_def)
    qed
  next
    case False
    then show ?thesis using 1(2-) by (subst std_equal_loop.simps) simp
  qed
qed

lemma operator_eq_ok:
  assumes "wf lhs" "wf rhs"
  shows "operator_eq lhs rhs = Some (elems lhs = elems rhs)"
proof (cases "v_size lhs = v_size rhs")
  case True
  have "std_equal_loop (v_items lhs) 0 (v_size lhs) (v_items rhs) 0 =
     Some (take (v_size lhs - 0) (drop 0 (v_items lhs)) =
           take (v_size lhs - 0) (drop 0 (v_items rhs)))"
    using assms True by (intro std_equal_loop_ok) (simp_all add: wf_def)
  then show ?thesis
    using True by (simp add: operator_eq_def std_equal_def begin_it_def end_it_def elems_def)
next
  case False
  moreover have "length (elems lhs) = v_size lhs" "length (elems rhs) = v_size rhs"
    using assms by (simp_all add: elems_def wf_def)
  ultimately have "elems lhs \<noteq> elems rhs" by metis
  then show ?thesis
    using False by (simp add: operator_eq_def std_equal_def begin_it_def end_it_def)
qed

lemma std_lexicographical_compare_ok:
  fixes xs ys :: "('a::linorder) list"
  shows "first1 \<le> last1 \<Longrightarrow> last1 \<le> length xs \<Longrightarrow> first2 \<le> last2 \<Longrightarrow> last2 \<le> length ys \<Longrightarrow>
   std_lexicographical_compare xs first1 last1 ys first2 last2 =
     Some ((take (last1 - first1) (drop first1 xs), take (last2 - first2) (drop first2 ys))
             \<in> lexord {(a, b). a < b})"
proof (induction xs first1 last1 ys first2 last2 rule: std_lexicographical_compare.induct)
  case (1 xs first1 last1 ys first2 last2)
  show ?case
  proof (cases "first1 < last1 \<and> first2 < last2")
    case True
    have inb: "first1 < length xs" "first2 < length ys"
      using True 1(2-) by auto
    have l: "take (last1 - first1) (drop first1 xs) =
             xs ! first1 # take (last1 - (first1 + 1)) (drop (first1 + 1) xs)"
      using True 1(3) by (intro take_drop_step) simp_all
    have r: "take (last2 - first2) (drop first2 ys) =
             ys ! first2 # take (last2 - (first2 + 1)) (drop (first2 + 1) ys)"
      using True 1(5) by (intro take_drop_step) simp_all
    consider "xs ! first1 < ys ! first2" | "ys ! first2 < xs ! first1" | "xs ! first1 = ys ! first2"
      by (rule linorder_cases) auto
    then show ?thesis
    proof cases
      case 1
      then show ?thesis
        using True inb l r
        by (subst std_lexicographical_compare.simps) (simp add: ArrayPtr_get_def)
    next
      case 2
      then show ?thesis
        using True inb l r
        by (subst std_lexicographical_compare.simps) (auto simp: ArrayPtr_get_def)
    next
      case 3
      have "std_lexicographical_compare xs (first1 + 1) last1 ys (first2 + 1) last2 =
            Some ((take (last1 - (first1 + 1)) (drop (first1 + 1) xs),
                   take (last2 - (first2 + 1)) (drop (first2 + 1) ys)) \<in> lexord {(a, b). a < b})"
        using "1.IH" [OF True, of "Some (xs ! first1)" "Some (ys ! first2)" "xs ! first1" "ys ! first2"]
          True inb 3 "1.prems"
        by (simp add: ArrayPtr_get_def)
      then show ?thesis
        using True inb l r 3
        by (subst std_lexicographical_compare.simps) (simp add: ArrayPtr_get_def)
    qed
  next
    case False
    then have e: "first1 = last1 \<or> first2 = last2" using "1.prems" by auto
    show ?thesis
    proof (cases "first1 = last1")
      case True
      then show ?thesis
        using "1.prems"
        by (subst std_lexicographical_compare.simps) (auto simp: neq_Nil_conv [symmetric])
    next
      case False
      then have "first2 = last2" using e by simp
      then show ?thesis
        using False "1.prems"
        by (subst std_lexicographical_compare.simps) simp
    qed
  qed
qed

lemma operator_lt_ok:
  fixes lhs rhs :: "('a::linorder) SimpleVector"
  assumes "wf lhs" "wf rhs"
  shows "operator_lt lhs rhs = Some ((elems lhs, elems rhs) \<in> lexord {(a, b). a < b})"
proof -
  have "std_lexicographical_compare (v_items lhs) 0 (v_size lhs) (v_items rhs) 0 (v_size rhs) =
     Some ((take (v_size lhs - 0) (drop 0 (v_items lhs)),
            take (v_size rhs - 0) (drop 0 (v_items rhs))) \<in> lexord {(a, b). a < b})"
    using assms by (intro std_lexicographical_compare_ok) (simp_all add: wf_def)
  then show ?thesis
    by (simp add: operator_lt_def begin_it_def end_it_def elems_def)
qed

section \<open>The representation invariant\<close>

lemma ArrayPtr_new_Some: "ArrayPtr_new avail d n = Some buf \<Longrightarrow> buf = replicate n d"
  by (auto simp: ArrayPtr_new_def split: if_splits)

lemma wf_default: "wf SimpleVector_default"
  by (simp add: wf_def SimpleVector_default_def)

lemma wf_copy:
  assumes "wf other"
  shows "constructs (\<lambda>s. wf s \<and> elems s = elems other \<and> v_capacity s = v_capacity other)
           (SimpleVector_copy avail d other)"
proof (cases "ArrayPtr_new avail d (v_capacity other)")
  case None
  then show ?thesis by (simp add: SimpleVector_copy_def constructs_def)
next
  case (Some buf)
  then have buf: "buf = replicate (v_capacity other) d" by (rule ArrayPtr_new_Some)
  have sz: "v_size other \<le> v_capacity other" and len: "length (v_items other) = v_capacity other"
    and cap: "v_capacity other \<le> SIZE_MAX"
    using assms by (simp_all add: wf_def)
  have "std_copy_to (v_items other) 0 (v_size other) buf 0 =
     Some (take 0 buf @ take (v_size other - 0) (drop 0 (v_items other))
             @ drop (0 + (v_size other - 0)) buf)"
    using sz len buf by (intro std_copy_to_ok) simp_all
  then show ?thesis
    using Some sz len cap buf
    by (simp add: SimpleVector_copy_def constructs_def wf_def elems_def SimpleVector_default_def)
qed

lemma wf_filled_gen:
  assumes "n \<le> SIZE_MAX"
  shows "(case ArrayPtr_new avail d n of
            None \<Rightarrow> True
          | Some buf \<Rightarrow> std_fill buf 0 n x = Some (replicate n x))"
proof (cases "ArrayPtr_new avail d n")
  case None
  then show ?thesis by simp
next
  case (Some buf)
  then have buf: "buf = replicate n d" by (rule ArrayPtr_new_Some)
  have "std_fill buf 0 n x = Some (take 0 buf @ replicate (n - 0) x @ drop n buf)"
    using buf by (intro std_fill_ok) simp_all
  then show ?thesis using Some buf by simp
qed

lemma wf_sized:
  assumes "n \<le> SIZE_MAX"
  shows "constructs (\<lambda>s. wf s \<and> elems s = replicate n d \<and> v_capacity s = n)
           (SimpleVector_sized avail d n)"
  using wf_filled_gen [OF assms, where avail = avail and d = d and x = d] assms
  by (auto simp: SimpleVector_sized_def constructs_def wf_def elems_def split: option.splits)

lemma wf_filled:
  assumes "n \<le> SIZE_MAX"
  shows "constructs (\<lambda>s. wf s \<and> elems s = replicate n x \<and> v_capacity s = n)
           (SimpleVector_filled avail d n x)"
  using wf_filled_gen [OF assms, where avail = avail and d = d and x = x] assms
  by (auto simp: SimpleVector_filled_def constructs_def wf_def elems_def split: option.splits)

lemma wf_reserved:
  assumes "n \<le> SIZE_MAX"
  shows "constructs (\<lambda>s. wf s \<and> v_size s = 0 \<and> v_capacity s = n)
           (SimpleVector_reserved avail d (Reserve_proxy n))"
  using wf_filled_gen [OF assms, where avail = avail and d = d and x = d] assms
  by (auto simp: SimpleVector_reserved_def Reserve_proxy_def constructs_def wf_def
      SimpleVector_default_def split: option.splits)

lemma wf_init:
  assumes "length init \<le> SIZE_MAX"
  shows "constructs (\<lambda>s. wf s \<and> elems s = init \<and> v_capacity s = length init)
           (SimpleVector_init avail d init)"
proof (cases "ArrayPtr_new avail d (length init)")
  case None
  then show ?thesis by (simp add: SimpleVector_init_def constructs_def)
next
  case (Some buf)
  then have buf: "buf = replicate (length init) d" by (rule ArrayPtr_new_Some)
  have "std_copy_to init 0 (length init) buf 0 =
     Some (take 0 buf @ take (length init - 0) (drop 0 init) @ drop (0 + (length init - 0)) buf)"
    using buf by (intro std_copy_to_ok) simp_all
  then show ?thesis
    using Some assms buf
    by (simp add: SimpleVector_init_def constructs_def wf_def elems_def SimpleVector_default_def
          Let_def)
qed

lemma wf_move:
  assumes "wf other"
  shows "wf (fst (SimpleVector_move other))" "wf (snd (SimpleVector_move other))"
  using assms by (simp_all add: SimpleVector_move_def wf_def)

lemma wf_Clear: "wf v \<Longrightarrow> wf (Clear v)"
  by (simp add: Clear_def wf_def)

lemma wf_PopBack: "wf v \<Longrightarrow> wf (PopBack v)"
  by (auto simp: PopBack_def wf_def)

lemma leaves_At: "wf v \<Longrightarrow> leaves wf (At v i)"
  by (simp add: At_def leaves_def split: option.splits)

lemma leaves_index_op: "wf v \<Longrightarrow> leaves wf (index_op v i)"
  by (simp add: index_op_def leaves_def split: option.splits)

lemma leaves_Reserve:
  assumes "wf v" "n \<le> SIZE_MAX"
  shows "leaves wf (Reserve avail moved_from d n v)"
proof (cases "Reserve avail moved_from d n v")
  case (Returns r v')
  then show ?thesis using Reserve_Returns(1) [OF assms Returns] by (simp add: leaves_def)
next
  case (Throws e v')
  then show ?thesis using Reserve_Throws [OF Throws] assms by (simp add: leaves_def)
next
  case Undefined
  then show ?thesis by (simp add: leaves_def)
qed

lemma leaves_Resize:
  assumes "wf v" "n \<le> SIZE_MAX"
  shows "leaves wf (Resize avail moved_from d n v)"
proof (cases "Resize avail moved_from d n v")
  case (Returns r v')
  then show ?thesis using Resize_Returns(1) [OF assms Returns] by (simp add: leaves_def)
next
  case (Throws e v')
  then show ?thesis using Resize_Throws [OF Throws] assms by (simp add: leaves_def)
next
  case Undefined
  then show ?thesis by (simp add: leaves_def)
qed

lemma leaves_Erase:
  assumes "wf v"
  shows "leaves wf (Erase moved_from pos v)"
proof (cases "pos < v_size v")
  case True
  from Erase_ok [OF assms True, of moved_from] show ?thesis by (auto simp: leaves_def)
next
  case False
  then have "std_move moved_from (v_items v) (pos + 1) (v_size v) pos = None"
    by (subst std_move.simps) simp
  then show ?thesis
    by (simp add: Erase_def begin_it_def end_it_def leaves_def)
qed

lemma leaves_assign_copy:
  assumes "wf (h this)" "wf (h rhs)"
  shows "leaves (\<lambda>h'. wf (h' this) \<and> wf (h' rhs) \<and> (\<forall>a. a \<noteq> this \<longrightarrow> h' a = h a))
           (assign_copy avail d this rhs h)"
proof (cases "this = rhs")
  case True
  then show ?thesis using assms by (simp add: assign_copy_def leaves_def)
next
  case ne: False
  show ?thesis
  proof (cases "ArrayPtr_new avail d (v_capacity (h rhs))")
    case None
    then show ?thesis using assms ne by (simp add: assign_copy_def leaves_def)
  next
    case (Some buf)
    then have buf: "buf = replicate (v_capacity (h rhs)) d" by (rule ArrayPtr_new_Some)
    have sz: "v_size (h rhs) \<le> v_capacity (h rhs)"
      and len: "length (v_items (h rhs)) = v_capacity (h rhs)"
      and cap: "v_capacity (h rhs) \<le> SIZE_MAX"
      using assms by (simp_all add: wf_def)
    have "std_copy_to (v_items (h rhs)) 0 (v_size (h rhs)) buf 0 =
       Some (take 0 buf @ take (v_size (h rhs) - 0) (drop 0 (v_items (h rhs)))
               @ drop (0 + (v_size (h rhs) - 0)) buf)"
      using sz len buf by (intro std_copy_to_ok) simp_all
    then show ?thesis
      using Some ne assms sz len cap buf
      by (simp add: assign_copy_def leaves_def wf_def)
  qed
qed

lemma wf_assign_move:
  assumes "wf (h this)" "wf (h other)"
  shows "wf (snd (assign_move this other h) this)" "wf (snd (assign_move this other h) other)"
    "\<forall>a. a \<noteq> this \<and> a \<noteq> other \<longrightarrow> snd (assign_move this other h) a = h a"
  using assms by (auto simp: assign_move_def wf_def Let_def)

lemma wf_swap:
  assumes "wf (h this)" "wf (h other)"
  shows "wf (swap this other h this)" "wf (swap this other h other)"
    "\<forall>a. a \<noteq> this \<and> a \<noteq> other \<longrightarrow> swap this other h a = h a"
    "swap this other h this = h other" "swap this other h other = h this"
  using assms by (auto simp: swap_def wf_def Let_def)

lemma constructs_mono: "constructs P out \<Longrightarrow> (\<And>s. P s \<Longrightarrow> Q s) \<Longrightarrow> constructs Q out"
  by (cases out) (simp_all add: constructs_def)

lemma leaves_mono: "leaves P out \<Longrightarrow> (\<And>s. P s \<Longrightarrow> Q s) \<Longrightarrow> leaves Q out"
  by (cases out) (simp_all add: leaves_def)

section \<open>Insert and PushBack\<close>

lemma Reserve_replaces_buffer:
  "Reserve avail moved_from d n v = Returns r v1 \<Longrightarrow>
   buffer_replaced v v1 \<longleftrightarrow> v_capacity v < n"
  by (auto simp: Reserve_def buffer_replaced_def split: if_splits option.splits)

lemma assign_from_outside:
  "outside a = Some x \<Longrightarrow> assign_from moved_from released buf index a = ArrayPtr_put buf index x"
  by (induction a rule: outside.induct) simp_all

lemma assign_from_length:
  "assign_from moved_from released buf index a = Some buf' \<Longrightarrow>
   length buf' = length buf \<and> index < length buf"
  by (induction moved_from released buf index a rule: assign_from.induct)
     (auto simp: ArrayPtr_put_def ArrayPtr_get_def move_assign_def split: if_splits option.splits)

lemma assign_from_written:
  assumes "\<forall>i. a \<noteq> Rvalue (Slot i)" "assign_from moved_from released buf index a = Some buf'"
  shows "\<exists>w. buf' = buf[index := w] \<and> (\<forall>x. outside a = Some x \<longrightarrow> w = x)"
  using assms
  by (induction moved_from released buf index a rule: assign_from.induct)
     (auto simp: ArrayPtr_put_def ArrayPtr_get_def split: if_splits option.splits)

lemma assign_from_out_of_range:
  "length buf \<le> index \<Longrightarrow> assign_from moved_from released buf index a = None"
  by (induction moved_from released buf index a rule: assign_from.induct)
     (auto simp: ArrayPtr_put_def ArrayPtr_get_def move_assign_def split: option.splits)

lemma shifted_take:
  assumes "length es = n" "pos \<le> n" "n < length r"
    and "\<forall>k. k < pos \<longrightarrow> r ! k = es ! k"
    and "\<forall>k. pos \<le> k \<and> k < n \<longrightarrow> r ! (k + 1) = es ! k"
  shows "take (n + 1) (r[pos := w]) = take pos es @ w # drop pos es"
proof (rule nth_equalityI)
  show "length (take (n + 1) (r[pos := w])) = length (take pos es @ w # drop pos es)"
    using assms by simp
next
  fix k assume "k < length (take (n + 1) (r[pos := w]))"
  then have k: "k < n + 1" by simp
  consider "k < pos" | "k = pos" | "pos < k" by linarith
  then show "take (n + 1) (r[pos := w]) ! k = (take pos es @ w # drop pos es) ! k"
  proof cases
    case 1
    then show ?thesis using k assms by (simp add: nth_append)
  next
    case 2
    then show ?thesis using k assms by (simp add: nth_append)
  next
    case 3
    then obtain j where j: "k = j + 1" "pos \<le> j" "j < n"
      using k by (cases k) auto
    then have "r ! k = es ! j" using assms(5) by simp
    moreover have "(take pos es @ w # drop pos es) ! k = es ! j"
      using j assms by (simp add: nth_append)
    ultimately show ?thesis using 3 k by simp
  qed
qed

lemma Insert_shape:
  assumes "wf v" "pos \<le> v_size v"
    and "v_size v = v_capacity v \<longrightarrow>
           2 * v_capacity v \<le> SIZE_MAX \<and> avail (max 1 (2 * v_capacity v))"
  shows "\<exists>r. v_size v < length r \<and>
           length r = (if v_size v = v_capacity v then max 1 (2 * v_capacity v) else v_capacity v) \<and>
           length r \<le> SIZE_MAX \<and>
           (\<forall>k. k < pos \<longrightarrow> r ! k = elems v ! k) \<and>
           (\<forall>k. pos \<le> k \<and> k < v_size v \<longrightarrow> r ! (k + 1) = elems v ! k) \<and>
           (\<forall>a. Insert avail moved_from d pos a v =
              (case assign_from moved_from (v_size v = v_capacity v) r pos a of
                 None \<Rightarrow> Undefined
               | Some buf' \<Rightarrow>
                   Returns pos \<lparr>v_items = buf', v_size = v_size v + 1, v_capacity = length r\<rparr>))"
proof (cases "v_size v = v_capacity v")
  case False
  let ?buf = "v_items v" and ?n = "v_size v"
  have len: "length ?buf = v_capacity v" and cap: "v_capacity v \<le> SIZE_MAX"
    and room: "?n < v_capacity v"
    using assms False by (simp_all add: wf_def)
  have "?n < length ?buf" using room len by simp
  from std_move_backward_ok [OF assms(2) this, of moved_from]
  obtain r where r: "std_move_backward moved_from ?buf pos ?n (?n + 1) = Some r"
      "length r = length ?buf"
      "\<forall>k. k < pos \<longrightarrow> r ! k = ?buf ! k"
      "\<forall>k. pos \<le> k \<and> k < ?n \<longrightarrow> r ! (k + 1) = ?buf ! k"
    by blast
  have inc: "size_t (?n + 1) = ?n + 1"
    using room cap by (intro size_t_id) simp
  have run: "\<forall>a. Insert avail moved_from d pos a v =
       (case assign_from moved_from (v_size v = v_capacity v) r pos a of
          None \<Rightarrow> Undefined
        | Some buf' \<Rightarrow>
            Returns pos \<lparr>v_items = buf', v_size = v_size v + 1, v_capacity = length r\<rparr>)"
    using False r(1,2) inc len
    by (simp add: Insert_def begin_it_def end_it_def Let_def buffer_replaced_def
          split: option.splits)
  have p1: "\<forall>k. k < pos \<longrightarrow> r ! k = elems v ! k"
    using r(3) assms(2) by (simp add: elems_def)
  have p2: "\<forall>k. pos \<le> k \<and> k < ?n \<longrightarrow> r ! (k + 1) = elems v ! k"
    using r(4) by (simp add: elems_def)
  have q1: "v_size v < length r" using r(2) len room by simp
  have q2: "length r =
      (if v_size v = v_capacity v then max 1 (2 * v_capacity v) else v_capacity v)"
    using False r(2) len by simp
  have q3: "length r \<le> SIZE_MAX" using r(2) len cap by simp
  show ?thesis using q1 q2 q3 p1 p2 run by blast
next
  case full: True
  let ?n = "max 1 (2 * v_capacity v)"
  let ?b1 = "elems v @ replicate (?n - v_size v) d"
  let ?v1 = "v\<lparr>v_items := ?b1, v_capacity := ?n\<rparr>"
  have ok: "2 * v_capacity v \<le> SIZE_MAX" "avail ?n" using assms(3) full by simp_all
  have g: "(if v_capacity v = 0 then 1 else size_t (v_capacity v * 2)) = ?n"
    using ok(1) by (rule growth_no_overflow)
  have lt: "v_capacity v < ?n" by auto
  have n: "?n \<le> SIZE_MAX" using ok(1) by (auto simp: SIZE_MAX_def)
  have res: "Reserve avail moved_from d ?n v = Returns () ?v1"
    using assms(1) lt ok(2) by (rule Reserve_grow)
  have lenE: "length (elems v) = v_size v"
    using assms(1) by (simp add: elems_def wf_def)
  have len1: "length ?b1 = ?n" using lenE full lt by simp
  have "v_size v < length ?b1" using len1 full lt by simp
  from std_move_backward_ok [OF assms(2) this, of moved_from]
  obtain r where r: "std_move_backward moved_from ?b1 pos (v_size v) (v_size v + 1) = Some r"
      "length r = length ?b1"
      "\<forall>k. k < pos \<longrightarrow> r ! k = ?b1 ! k"
      "\<forall>k. pos \<le> k \<and> k < v_size v \<longrightarrow> r ! (k + 1) = ?b1 ! k"
    by blast
  have inc: "size_t (v_size v + 1) = v_size v + 1"
    using full lt n by (intro size_t_id) simp
  have grow: "(if v_size v = v_capacity v
               then Reserve avail moved_from d
                      (if v_capacity v = 0 then 1 else size_t (v_capacity v * 2)) v
               else Returns () v) = Returns () ?v1"
    unfolding g using full res by simp
  have repl: "buffer_replaced v ?v1" using lt by (simp add: buffer_replaced_def)
  have run: "\<forall>a. Insert avail moved_from d pos a v =
       (case assign_from moved_from (v_size v = v_capacity v) r pos a of
          None \<Rightarrow> Undefined
        | Some buf' \<Rightarrow>
            Returns pos \<lparr>v_items = buf', v_size = v_size v + 1, v_capacity = length r\<rparr>)"
    unfolding Insert_def Let_def grow
    using r(1,2) inc len1 repl full
    by (simp add: begin_it_def end_it_def split: option.splits)
  have p1: "\<forall>k. k < pos \<longrightarrow> r ! k = elems v ! k"
    using r(3) assms(2) lenE by (simp add: nth_append)
  have p2: "\<forall>k. pos \<le> k \<and> k < v_size v \<longrightarrow> r ! (k + 1) = elems v ! k"
    using r(4) lenE by (simp add: nth_append)
  have q1: "v_size v < length r" using r(2) len1 full lt by simp
  have q2: "length r =
      (if v_size v = v_capacity v then max 1 (2 * v_capacity v) else v_capacity v)"
    using full r(2) len1 by simp
  have q3: "length r \<le> SIZE_MAX" using r(2) len1 n by simp
  show ?thesis using q1 q2 q3 p1 p2 run by blast
qed

lemma Insert_full_fail:
  assumes "v_size v = v_capacity v" "2 * v_capacity v \<le> SIZE_MAX"
    and "\<not> avail (max 1 (2 * v_capacity v))"
  shows "Insert avail moved_from d pos a v = Throws bad_alloc v"
proof -
  let ?n = "max 1 (2 * v_capacity v)"
  have g: "(if v_capacity v = 0 then 1 else size_t (v_capacity v * 2)) = ?n"
    using assms(2) by (rule growth_no_overflow)
  have "v_capacity v < ?n" by auto
  then have "Reserve avail moved_from d ?n v = Throws bad_alloc v"
    using assms(3) by (rule Reserve_fail)
  then show ?thesis
    using assms(1) by (simp add: Insert_def g del: max_less_iff_conj)
qed

lemma Insert_full_overflow:
  assumes "wf v" "v_size v = v_capacity v" "pos \<le> v_size v" "SIZE_MAX < 2 * v_capacity v"
  shows "Insert avail moved_from d pos a v = Undefined"
proof -
  let ?g = "if v_capacity v = 0 then 1 else size_t (v_capacity v * 2)"
  have len: "length (v_items v) = v_capacity v" and cap: "v_capacity v \<le> SIZE_MAX"
    using assms by (simp_all add: wf_def)
  have "?g \<le> v_capacity v" using cap assms(4) by (rule growth_overflow)
  then have res: "Reserve avail moved_from d ?g v = Returns () v"
    by (rule Reserve_noop)
  show ?thesis
  proof (cases "pos = v_size v")
    case True
    have "assign_from moved_from (buffer_replaced v v) (v_items v) (v_size v) a = None"
      using assms(2) len by (intro assign_from_out_of_range) simp
    then show ?thesis
      using assms(2) res True
      by (simp add: Insert_def begin_it_def end_it_def std_move_backward_empty)
  next
    case False
    then have "pos < v_size v" using assms(3) by simp
    then have "std_move_backward moved_from (v_items v) pos (v_size v) (v_size v + 1) = None"
      using assms(2) len
      by (subst std_move_backward.simps) (simp add: move_assign_def)
    then show ?thesis
      using assms(2) res
      by (simp add: Insert_def begin_it_def end_it_def)
  qed
qed

lemma Insert_bad_pos:
  assumes "v_size v < pos"
  shows "Insert avail moved_from d pos a v \<noteq> Returns it v'"
proof -
  let ?grow = "if v_size v = v_capacity v
               then Reserve avail moved_from d
                      (if v_capacity v = 0 then 1 else size_t (v_capacity v * 2)) v
               else Returns () v"
  show ?thesis
  proof (cases ?grow)
    case (Returns r v1)
    then have sz: "v_size v1 = v_size v"
      by (auto dest: Reserve_Returns_size split: if_splits)
    have "std_move_backward moved_from (v_items v1) pos (v_size v1) (v_size v1 + 1) = None"
      using assms sz by (subst std_move_backward.simps) simp
    then show ?thesis
      using Returns by (simp add: Insert_def begin_it_def end_it_def Let_def)
  next
    case (Throws e s)
    then show ?thesis by (simp add: Insert_def)
  next
    case Undefined
    then show ?thesis by (simp add: Insert_def)
  qed
qed

lemma Insert_Throws:
  "Insert avail moved_from d pos a v = Throws e v' \<Longrightarrow> e = bad_alloc \<and> v' = v"
  by (auto simp: Insert_def Let_def dest: Reserve_Throws split: if_splits option.splits
      elim!: then_do.elims)

lemma Insert_Returns_growth:
  assumes "wf v" "Insert avail moved_from d pos a v = Returns it v'"
  shows "pos \<le> v_size v"
    "v_size v = v_capacity v \<longrightarrow>
       2 * v_capacity v \<le> SIZE_MAX \<and> avail (max 1 (2 * v_capacity v))"
proof -
  show le: "pos \<le> v_size v"
    using Insert_bad_pos [of v pos avail moved_from d a it v'] assms(2)
    by (cases "pos \<le> v_size v") auto
  show "v_size v = v_capacity v \<longrightarrow>
       2 * v_capacity v \<le> SIZE_MAX \<and> avail (max 1 (2 * v_capacity v))"
  proof (intro impI conjI)
    assume full: "v_size v = v_capacity v"
    show a: "2 * v_capacity v \<le> SIZE_MAX"
    proof (rule ccontr)
      assume "\<not> 2 * v_capacity v \<le> SIZE_MAX"
      then have "SIZE_MAX < 2 * v_capacity v" by simp
      from Insert_full_overflow [OF assms(1) full le this, of avail moved_from d a]
      show False using assms(2) by simp
    qed
    show "avail (max 1 (2 * v_capacity v))"
    proof (rule ccontr)
      assume n: "\<not> avail (max 1 (2 * v_capacity v))"
      from Insert_full_fail [where avail = avail and moved_from = moved_from and d = d
          and a = a and pos = pos, OF full a n]
      show False using assms(2) by simp
    qed
  qed
qed

lemma Insert_Returns_any:
  assumes "wf v" "Insert avail moved_from d pos a v = Returns it v'"
  shows "it = pos" "wf v'"
    "v_capacity v' = (if v_size v = v_capacity v then max 1 (2 * v_capacity v) else v_capacity v)"
    "v_size v' = v_size v + 1"
    "(\<forall>i. a \<noteq> Rvalue (Slot i)) \<longrightarrow>
       (\<exists>w. elems v' = take pos (elems v) @ w # drop pos (elems v) \<and>
            (\<forall>x. outside a = Some x \<longrightarrow> w = x))"
proof -
  note g = Insert_Returns_growth [OF assms]
  from Insert_shape [where avail = avail and moved_from = moved_from and d = d, OF assms(1) g]
  obtain r where r: "v_size v < length r"
      "length r = (if v_size v = v_capacity v then max 1 (2 * v_capacity v) else v_capacity v)"
      "length r \<le> SIZE_MAX"
      "\<forall>k. k < pos \<longrightarrow> r ! k = elems v ! k"
      "\<forall>k. pos \<le> k \<and> k < v_size v \<longrightarrow> r ! (k + 1) = elems v ! k"
      "Insert avail moved_from d pos a v =
         (case assign_from moved_from (v_size v = v_capacity v) r pos a of
            None \<Rightarrow> Undefined
          | Some buf' \<Rightarrow>
              Returns pos \<lparr>v_items = buf', v_size = v_size v + 1, v_capacity = length r\<rparr>)"
    by blast
  from r(6) assms(2) obtain buf' where
    b: "assign_from moved_from (v_size v = v_capacity v) r pos a = Some buf'"
    and res: "it = pos" "v' = \<lparr>v_items = buf', v_size = v_size v + 1, v_capacity = length r\<rparr>"
    by (cases "assign_from moved_from (v_size v = v_capacity v) r pos a") auto
  have lb: "length buf' = length r" using assign_from_length [OF b] by simp
  have lenE: "length (elems v) = v_size v"
    using assms(1) by (simp add: elems_def wf_def)
  show "it = pos" by (rule res(1))
  show "wf v'" using res(2) lb r(1,3) by (simp add: wf_def)
  show "v_capacity v' =
      (if v_size v = v_capacity v then max 1 (2 * v_capacity v) else v_capacity v)"
    using res(2) r(2) by simp
  show "v_size v' = v_size v + 1" using res(2) by simp
  show "(\<forall>i. a \<noteq> Rvalue (Slot i)) \<longrightarrow>
       (\<exists>w. elems v' = take pos (elems v) @ w # drop pos (elems v) \<and>
            (\<forall>x. outside a = Some x \<longrightarrow> w = x))"
  proof
    assume "\<forall>i. a \<noteq> Rvalue (Slot i)"
    from assign_from_written [OF this b]
    obtain w where w: "buf' = r[pos := w]" "\<forall>x. outside a = Some x \<longrightarrow> w = x" by blast
    have "take (v_size v + 1) (r[pos := w]) = take pos (elems v) @ w # drop pos (elems v)"
      using lenE g(1) r(1) r(4) r(5) by (rule shifted_take)
    then have "elems v' = take pos (elems v) @ w # drop pos (elems v)"
      using res(2) w(1) by (simp add: elems_def)
    then show "\<exists>w. elems v' = take pos (elems v) @ w # drop pos (elems v) \<and>
            (\<forall>x. outside a = Some x \<longrightarrow> w = x)"
      using w(2) by blast
  qed
qed

lemma Insert_Returns_iff:
  assumes "wf v" "pos \<le> v_size v" "outside a = Some val"
  shows "(\<exists>it v'. Insert avail moved_from d pos a v = Returns it v') \<longleftrightarrow>
         (v_size v = v_capacity v \<longrightarrow>
            2 * v_capacity v \<le> SIZE_MAX \<and> avail (max 1 (2 * v_capacity v)))"
proof
  assume "\<exists>it v'. Insert avail moved_from d pos a v = Returns it v'"
  then obtain it v' where "Insert avail moved_from d pos a v = Returns it v'" by blast
  from Insert_Returns_growth(2) [OF assms(1) this]
  show "v_size v = v_capacity v \<longrightarrow>
            2 * v_capacity v \<le> SIZE_MAX \<and> avail (max 1 (2 * v_capacity v))" .
next
  assume g: "v_size v = v_capacity v \<longrightarrow>
            2 * v_capacity v \<le> SIZE_MAX \<and> avail (max 1 (2 * v_capacity v))"
  from Insert_shape [where avail = avail and moved_from = moved_from and d = d, OF assms(1,2) g]
  obtain r where r: "v_size v < length r"
      "Insert avail moved_from d pos a v =
         (case assign_from moved_from (v_size v = v_capacity v) r pos a of
            None \<Rightarrow> Undefined
          | Some buf' \<Rightarrow>
              Returns pos \<lparr>v_items = buf', v_size = v_size v + 1, v_capacity = length r\<rparr>)"
    by blast
  have "assign_from moved_from (v_size v = v_capacity v) r pos a = Some (r[pos := val])"
    using assign_from_outside [OF assms(3)] assms(2) r(1) by (simp add: ArrayPtr_put_def)
  then show "\<exists>it v'. Insert avail moved_from d pos a v = Returns it v'"
    using r(2) by simp
qed

lemma Insert_Returns:
  assumes "wf v" "outside a = Some val" "Insert avail moved_from d pos a v = Returns it v'"
  shows "elems v' = take pos (elems v) @ val # drop pos (elems v)"
proof -
  have "\<forall>i. a \<noteq> Rvalue (Slot i)" using assms(2) by auto
  with Insert_Returns_any(5) [OF assms(1,3)] assms(2) show ?thesis by auto
qed

lemma PushBack_as_Insert:
  "PushBack avail moved_from d a v = discard (Insert avail moved_from d (end_it v) a v)"
proof -
  let ?grow = "if v_size v = v_capacity v
               then Reserve avail moved_from d
                      (if v_capacity v = 0 then 1 else size_t (v_capacity v * 2)) v
               else Returns () v"
  show ?thesis
  proof (cases ?grow)
    case (Returns r v1)
    then have sz: "v_size v1 = v_size v"
      by (auto dest: Reserve_Returns_size split: if_splits)
    show ?thesis
      using Returns sz
      by (simp add: Insert_def PushBack_def begin_it_def end_it_def std_move_backward_empty
            Let_def split: option.splits)
  next
    case (Throws e s)
    then show ?thesis by (simp add: Insert_def PushBack_def)
  next
    case Undefined
    then show ?thesis by (simp add: Insert_def PushBack_def)
  qed
qed

lemma PushBack_Returns_iff:
  assumes "wf v" "outside a = Some val"
  shows "(\<exists>r v'. PushBack avail moved_from d a v = Returns r v') \<longleftrightarrow>
         (v_size v = v_capacity v \<longrightarrow>
            2 * v_capacity v \<le> SIZE_MAX \<and> avail (max 1 (2 * v_capacity v)))"
proof -
  have "(\<exists>r v'. PushBack avail moved_from d a v = Returns r v') \<longleftrightarrow>
        (\<exists>it v'. Insert avail moved_from d (v_size v) a v = Returns it v')"
    by (auto simp: PushBack_as_Insert discard_Returns_iff end_it_def begin_it_def)
  then show ?thesis
    using Insert_Returns_iff [where avail = avail and moved_from = moved_from and d = d,
        OF assms(1) _ assms(2), of "v_size v"] by simp
qed

lemma PushBack_Returns_any:
  assumes "wf v" "PushBack avail moved_from d a v = Returns r v'"
  shows "wf v'"
    "v_capacity v' = (if v_size v = v_capacity v then max 1 (2 * v_capacity v) else v_capacity v)"
    "v_size v' = v_size v + 1"
    "(\<forall>i. a \<noteq> Rvalue (Slot i)) \<longrightarrow>
       (\<exists>w. elems v' = elems v @ [w] \<and> (\<forall>x. outside a = Some x \<longrightarrow> w = x))"
proof -
  obtain it where run: "Insert avail moved_from d (v_size v) a v = Returns it v'"
    using assms(2) by (auto simp: PushBack_as_Insert discard_Returns_iff end_it_def begin_it_def)
  note r = Insert_Returns_any [OF assms(1) run]
  have len: "length (elems v) = v_size v"
    using assms by (simp add: elems_def wf_def)
  show "wf v'" by (rule r(2))
  show "v_capacity v' =
      (if v_size v = v_capacity v then max 1 (2 * v_capacity v) else v_capacity v)"
    by (rule r(3))
  show "v_size v' = v_size v + 1" by (rule r(4))
  show "(\<forall>i. a \<noteq> Rvalue (Slot i)) \<longrightarrow>
       (\<exists>w. elems v' = elems v @ [w] \<and> (\<forall>x. outside a = Some x \<longrightarrow> w = x))"
    using r(5) len by simp
qed

lemma PushBack_Returns:
  assumes "wf v" "outside a = Some val" "PushBack avail moved_from d a v = Returns r v'"
  shows "elems v' = elems v @ [val]"
proof -
  have "\<forall>i. a \<noteq> Rvalue (Slot i)" using assms(2) by auto
  with PushBack_Returns_any(4) [OF assms(1,3)] assms(2) show ?thesis by auto
qed

lemma PushBack_Throws:
  "PushBack avail moved_from d a v = Throws e v' \<Longrightarrow> e = bad_alloc \<and> v' = v"
  by (auto simp: PushBack_def dest: Reserve_Throws split: if_splits option.splits
      elim!: then_do.elims)

lemma PushBack_full_fail:
  assumes "v_size v = v_capacity v" "2 * v_capacity v \<le> SIZE_MAX"
    and "\<not> avail (max 1 (2 * v_capacity v))"
  shows "PushBack avail moved_from d a v = Throws bad_alloc v"
  using Insert_full_fail [where avail = avail and moved_from = moved_from and d = d
      and a = a and pos = "end_it v", OF assms]
  by (simp add: PushBack_as_Insert)

lemma leaves_PushBack:
  assumes "wf v"
  shows "leaves wf (PushBack avail moved_from d a v)"
proof (cases "PushBack avail moved_from d a v")
  case (Returns r v')
  then show ?thesis using PushBack_Returns_any(1) [OF assms Returns] by (simp add: leaves_def)
next
  case (Throws e v')
  then show ?thesis using PushBack_Throws [OF Throws] assms by (simp add: leaves_def)
next
  case Undefined
  then show ?thesis by (simp add: leaves_def)
qed

lemma leaves_Insert:
  assumes "wf v"
  shows "leaves wf (Insert avail moved_from d pos a v)"
proof (cases "Insert avail moved_from d pos a v")
  case (Returns it v')
  then show ?thesis using Insert_Returns_any(2) [OF assms Returns] by (simp add: leaves_def)
next
  case (Throws e v')
  then show ?thesis using Insert_Throws [OF Throws] assms by (simp add: leaves_def)
next
  case Undefined
  then show ?thesis by (simp add: leaves_def)
qed

lemma PushBack_all_Returns:
  "wf v \<Longrightarrow> PushBack_all avail moved_from d as v = Returns r v' \<Longrightarrow>
   wf v' \<and> v_size v' = v_size v + length as \<and>
   (\<forall>xs. map outside as = map Some xs \<longrightarrow> elems v' = elems v @ xs)"
proof (induction as arbitrary: v)
  case Nil
  then show ?case by simp
next
  case (Cons a as)
  from Cons.prems(2) obtain q v1 where
    p: "PushBack avail moved_from d a v = Returns q v1"
    and rest: "PushBack_all avail moved_from d as v1 = Returns r v'"
    by (cases "PushBack avail moved_from d a v") auto
  note r1 = PushBack_Returns_any [OF Cons.prems(1) p]
  note ih = Cons.IH [OF r1(1) rest]
  have "\<forall>xs. map outside (a # as) = map Some xs \<longrightarrow> elems v' = elems v @ xs"
  proof (intro allI impI)
    fix xs assume m: "map outside (a # as) = map Some xs"
    then obtain x xs' where xs: "xs = x # xs'" "outside a = Some x" "map outside as = map Some xs'"
      by (cases xs) auto
    have "elems v1 = elems v @ [x]"
      using Cons.prems(1) xs(2) p by (rule PushBack_Returns)
    moreover have "elems v' = elems v1 @ xs'" using ih xs(3) by blast
    ultimately show "elems v' = elems v @ xs" using xs(1) by simp
  qed
  then show ?case using ih r1(3) by simp
qed

lemma PushBack_all_ok:
  "wf v \<Longrightarrow> v_size v + length as \<le> 2 ^ 63 \<Longrightarrow>
   (\<forall>n. n \<le> 2 * (v_size v + length as) \<longrightarrow> avail n) \<Longrightarrow>
   map outside as = map Some xs \<Longrightarrow>
   \<exists>v'. PushBack_all avail moved_from d as v = Returns () v'"
proof (induction as arbitrary: v xs)
  case Nil
  then show ?case by simp
next
  case (Cons a as)
  from Cons.prems(4) obtain x xs' where xs: "outside a = Some x" "map outside as = map Some xs'"
    by (cases xs) auto
  have "v_size v = v_capacity v \<longrightarrow>
          2 * v_capacity v \<le> SIZE_MAX \<and> avail (max 1 (2 * v_capacity v))"
  proof
    assume full: "v_size v = v_capacity v"
    have "2 * v_size v + 2 \<le> 2 * 2 ^ 63" using Cons.prems(2) by simp
    then have "2 * v_capacity v \<le> SIZE_MAX" using full by (simp add: SIZE_MAX_def)
    moreover have "max 1 (2 * v_capacity v) \<le> 2 * (v_size v + length (a # as))"
      using full by simp
    then have "avail (max 1 (2 * v_capacity v))" using Cons.prems(3) by blast
    ultimately show "2 * v_capacity v \<le> SIZE_MAX \<and> avail (max 1 (2 * v_capacity v))" by simp
  qed
  then obtain q v1 where p: "PushBack avail moved_from d a v = Returns q v1"
    using PushBack_Returns_iff [where avail = avail and moved_from = moved_from and d = d,
        OF Cons.prems(1) xs(1)] by blast
  note r1 = PushBack_Returns_any [OF Cons.prems(1) p]
  have "v_size v1 + length as \<le> 2 ^ 63" using r1(3) Cons.prems(2) by simp
  moreover have "\<forall>n. n \<le> 2 * (v_size v1 + length as) \<longrightarrow> avail n"
    using r1(3) Cons.prems(3) by simp
  ultimately obtain v' where "PushBack_all avail moved_from d as v1 = Returns () v'"
    using Cons.IH [OF r1(1) _ _ xs(2)] by blast
  then show ?case using p by simp
qed

section \<open>Insertion\<close>

text \<open>
  C1, as amended: for a vector in a valid state, a position p in [0, size] and an argument
  that refers to an object outside the vector's own buffer, with value v, Insert(p, v)
  returns unless the vector is full and the doubled capacity cannot be had; when it
  returns, the capacity has grown to max(1, 2 * capacity) if the vector was full and is
  unchanged otherwise, the elements at and after p have each moved one slot towards the
  end in their order, v is at position p, the size is one more, and the returned iterator
  is the position of v.
\<close>

theorem Insert_correct:
  assumes "wf v" and "pos \<le> v_size v" and "outside a = Some val"
  shows "((\<exists>it v'. Insert avail moved_from d pos a v = Returns it v') \<longleftrightarrow>
          (v_size v = v_capacity v \<longrightarrow>
             2 * v_capacity v \<le> SIZE_MAX \<and> avail (max 1 (2 * v_capacity v)))) \<and>
         (\<forall>it v'. Insert avail moved_from d pos a v = Returns it v' \<longrightarrow>
            v_capacity v' =
              (if v_size v = v_capacity v then max 1 (2 * v_capacity v) else v_capacity v) \<and>
            v_size v' = v_size v + 1 \<and>
            elems v' = take pos (elems v) @ [val] @ drop pos (elems v) \<and>
            (\<forall>k. k < pos \<longrightarrow> elems v' ! k = elems v ! k) \<and>
            (\<forall>k. pos \<le> k \<and> k < v_size v \<longrightarrow> elems v' ! (k + 1) = elems v ! k) \<and>
            it = pos \<and> index_op v' it = Returns val v' \<and> wf v')"
proof (intro conjI allI impI)
  show "(\<exists>it v'. Insert avail moved_from d pos a v = Returns it v') \<longleftrightarrow>
          (v_size v = v_capacity v \<longrightarrow>
             2 * v_capacity v \<le> SIZE_MAX \<and> avail (max 1 (2 * v_capacity v)))"
    using assms by (rule Insert_Returns_iff)
next
  fix it v' assume run: "Insert avail moved_from d pos a v = Returns it v'"
  note r = Insert_Returns_any [OF assms(1) run]
  note e = Insert_Returns [OF assms(1,3) run]
  have len: "length (elems v) = v_size v"
    using assms by (simp add: elems_def wf_def)
  show "v_capacity v' =
      (if v_size v = v_capacity v then max 1 (2 * v_capacity v) else v_capacity v)"
    by (rule r(3))
  show "v_size v' = v_size v + 1" by (rule r(4))
  show el: "elems v' = take pos (elems v) @ [val] @ drop pos (elems v)"
    using e by simp
  show "it = pos" by (rule r(1))
  show "wf v'" by (rule r(2))
  show "index_op v' it = Returns val v'"
  proof -
    have "pos < v_size v'" using assms r(4) by simp
    moreover have "v_size v' \<le> length (v_items v')" using r(2) by (simp add: wf_def)
    moreover have "elems v' ! pos = val"
      using el assms len by (simp add: nth_append)
    ultimately show ?thesis
      using r(1) by (simp add: index_op_def ArrayPtr_get_def elems_def)
  qed
  { fix k assume "k < pos"
    then show "elems v' ! k = elems v ! k"
      using el assms len by (simp add: nth_append) }
  { fix k assume "pos \<le> k \<and> k < v_size v"
    then show "elems v' ! (k + 1) = elems v ! k"
      using el assms len by (simp add: nth_append nth_Cons' Suc_diff_le) }
qed

theorem Insert_correct_witness:
  "wf \<lparr>v_items = [1, 2, 3 :: int], v_size = 3, v_capacity = 3\<rparr> \<and>
   (1 :: nat) \<le> v_size \<lparr>v_items = [1, 2, 3 :: int], v_size = 3, v_capacity = 3\<rparr> \<and>
   outside (Lvalue (Outside (10 :: int))) = Some 10 \<and>
   (\<exists>v'. Insert (\<lambda>n. True) (\<lambda>s t. s) 0 1 (Lvalue (Outside 10))
            \<lparr>v_items = [1, 2, 3 :: int], v_size = 3, v_capacity = 3\<rparr> = Returns 1 v' \<and>
         v_capacity v' = 6 \<and> v_size v' = 4 \<and> elems v' = [1, 10, 2, 3])"
proof -
  let ?v = "\<lparr>v_items = [1, 2, 3 :: int], v_size = 3, v_capacity = 3\<rparr>"
  let ?a = "Lvalue (Outside (10 :: int))"
  have h1: "wf ?v" by (simp add: wf_def SIZE_MAX_def)
  have h2: "(1 :: nat) \<le> v_size ?v" by simp
  have h3: "outside ?a = Some 10" by simp
  note t = Insert_correct [where avail = "\<lambda>n. True" and moved_from = "\<lambda>s t. s" and d = 0,
      OF h1 h2 h3]
  have "\<exists>it v'. Insert (\<lambda>n. True) (\<lambda>s t. s) 0 1 ?a ?v = Returns it v'"
    using t [THEN conjunct1] by (simp add: SIZE_MAX_def)
  then obtain it v' where run: "Insert (\<lambda>n. True) (\<lambda>s t. s) 0 1 ?a ?v = Returns it v'"
    by blast
  have e: "elems ?v = [1, 2, 3]" by (simp add: elems_def)
  have "v_capacity v' = 6 \<and> v_size v' = 4 \<and> elems v' = [1, 10, 2, 3] \<and> it = 1"
    using t [THEN conjunct2, rule_format, OF run] by (simp add: e)
  then show ?thesis using h1 h2 h3 run by blast
qed

text \<open>
  Counterexample to C1 as it was stated, for every value passed: the claim fails for an
  argument that refers to a slot of the vector itself, because the reference is read
  after the shift. On the vector
  1, 2, 3 with capacity 4, \<open>Insert(cbegin(), v[1])\<close> is passed the element 2, returns,
  and leaves 1, 1, 2, 3: the element at the returned position is 1.
\<close>

theorem Insert_aliased_counterexample:
  "wf \<lparr>v_items = [1, 2, 3, 0 :: int], v_size = 3, v_capacity = 4\<rparr> \<and>
   (0 :: nat) \<le> v_size \<lparr>v_items = [1, 2, 3, 0 :: int], v_size = 3, v_capacity = 4\<rparr> \<and>
   referent (v_items \<lparr>v_items = [1, 2, 3, 0 :: int], v_size = 3, v_capacity = 4\<rparr>)
     (Lvalue (Slot 1)) = Some 2 \<and>
   Insert (\<lambda>n. True) (\<lambda>s t. s) 0 0 (Lvalue (Slot 1))
     \<lparr>v_items = [1, 2, 3, 0 :: int], v_size = 3, v_capacity = 4\<rparr> =
     Returns 0 \<lparr>v_items = [1, 1, 2, 3], v_size = 4, v_capacity = 4\<rparr> \<and>
   elems \<lparr>v_items = [1, 1, 2, 3 :: int], v_size = 4, v_capacity = 4\<rparr> = [1, 1, 2, 3] \<and>
   elems \<lparr>v_items = [1, 1, 2, 3 :: int], v_size = 4, v_capacity = 4\<rparr> \<noteq>
     take 0 (elems \<lparr>v_items = [1, 2, 3, 0 :: int], v_size = 3, v_capacity = 4\<rparr>) @ [2] @
     drop 0 (elems \<lparr>v_items = [1, 2, 3, 0 :: int], v_size = 3, v_capacity = 4\<rparr>) \<and>
   index_op \<lparr>v_items = [1, 1, 2, 3 :: int], v_size = 4, v_capacity = 4\<rparr> 0 =
     Returns 1 \<lparr>v_items = [1, 1, 2, 3], v_size = 4, v_capacity = 4\<rparr>"
  by (simp add: Insert_def run_simps wf_def SIZE_MAX_def elems_def index_op_def)

section \<open>Growth policy\<close>

text \<open>
  C2: on a full vector (size = capacity) a PushBack or an Insert that returns, whatever
  its argument refers to, leaves the capacity at exactly max(1, capacity * 2), and with an
  argument outside the buffer it returns whenever that capacity is a size_t value and the
  block can be allocated. Reserve(n) and Resize(n) with n above the current capacity
  leave the capacity at exactly n when they return, and return whenever the block of n
  slots can be allocated: nothing is doubled there.
\<close>

theorem growth_policy:
  assumes "wf v"
  shows "(v_size v = v_capacity v \<longrightarrow>
            (\<forall>r v'. PushBack avail moved_from d a v = Returns r v' \<longrightarrow>
                     v_capacity v' = max 1 (v_capacity v * 2)) \<and>
            (\<forall>it v'. pos \<le> v_size v \<and> Insert avail moved_from d pos a v = Returns it v' \<longrightarrow>
                     v_capacity v' = max 1 (v_capacity v * 2)) \<and>
            (v_capacity v * 2 \<le> SIZE_MAX \<and> avail (max 1 (v_capacity v * 2)) \<and>
             outside a \<noteq> None \<longrightarrow>
               (\<exists>r v'. PushBack avail moved_from d a v = Returns r v') \<and>
               (pos \<le> v_size v \<longrightarrow>
                  (\<exists>it v'. Insert avail moved_from d pos a v = Returns it v')))) \<and>
         (v_capacity v < n \<longrightarrow>
            (\<forall>r v'. Reserve avail moved_from d n v = Returns r v' \<longrightarrow> v_capacity v' = n) \<and>
            (\<forall>r v'. Resize avail moved_from d n v = Returns r v' \<longrightarrow> v_capacity v' = n) \<and>
            (avail n \<longrightarrow>
               (\<exists>r v'. Reserve avail moved_from d n v = Returns r v') \<and>
               (\<exists>r v'. Resize avail moved_from d n v = Returns r v')))"
proof (intro conjI impI allI)
  fix r v'
  assume "v_size v = v_capacity v" "PushBack avail moved_from d a v = Returns r v'"
  then show "v_capacity v' = max 1 (v_capacity v * 2)"
    using PushBack_Returns_any(2) [OF assms, of avail moved_from d a r v']
    by (simp add: mult.commute)
next
  fix it v'
  assume "v_size v = v_capacity v"
    "pos \<le> v_size v \<and> Insert avail moved_from d pos a v = Returns it v'"
  then show "v_capacity v' = max 1 (v_capacity v * 2)"
    using Insert_Returns_any(3) [OF assms, of avail moved_from d pos a it v']
    by (simp add: mult.commute)
next
  assume "v_size v = v_capacity v"
    "v_capacity v * 2 \<le> SIZE_MAX \<and> avail (max 1 (v_capacity v * 2)) \<and> outside a \<noteq> None"
  then show "\<exists>r v'. PushBack avail moved_from d a v = Returns r v'"
    using PushBack_Returns_iff [where avail = avail and moved_from = moved_from and d = d
        and a = a, OF assms]
    by (auto simp: mult.commute)
next
  assume "v_size v = v_capacity v"
    "v_capacity v * 2 \<le> SIZE_MAX \<and> avail (max 1 (v_capacity v * 2)) \<and> outside a \<noteq> None"
    "pos \<le> v_size v"
  then show "\<exists>it v'. Insert avail moved_from d pos a v = Returns it v'"
    using Insert_Returns_iff [where avail = avail and moved_from = moved_from and d = d
        and a = a and pos = pos, OF assms]
    by (auto simp: mult.commute)
next
  fix r v'
  assume "v_capacity v < n" "Reserve avail moved_from d n v = Returns r v'"
  then show "v_capacity v' = n"
    using assms by (auto simp: Reserve_cases split: if_splits)
next
  fix r v'
  assume a: "v_capacity v < n" "Resize avail moved_from d n v = Returns r v'"
  show "v_capacity v' = n"
  proof (cases "avail n")
    case True
    then show ?thesis using a assms by (auto simp: Resize_grow_alloc)
  next
    case False
    moreover have "v_size v < n" using a(1) assms by (simp add: wf_def)
    ultimately show ?thesis using a by (simp add: Resize_fail)
  qed
next
  assume "v_capacity v < n" "avail n"
  then show "\<exists>r v'. Reserve avail moved_from d n v = Returns r v'"
    using assms by (simp add: Reserve_grow)
next
  assume "v_capacity v < n" "avail n"
  then show "\<exists>r v'. Resize avail moved_from d n v = Returns r v'"
    using assms by (simp add: Resize_grow_alloc)
qed

theorem growth_policy_witness:
  "wf \<lparr>v_items = [1, 2, 3 :: int], v_size = 3, v_capacity = 3\<rparr> \<and>
   (\<exists>r v'. PushBack (\<lambda>n. True) (\<lambda>s t. s) 0 (Lvalue (Outside 4))
              \<lparr>v_items = [1, 2, 3 :: int], v_size = 3, v_capacity = 3\<rparr> = Returns r v' \<and>
           v_capacity v' = 6) \<and>
   (\<exists>r v'. Reserve (\<lambda>n. True) (\<lambda>s t. s) 0 5
              \<lparr>v_items = [1, 2, 3 :: int], v_size = 3, v_capacity = 3\<rparr> = Returns r v' \<and>
           v_capacity v' = 5) \<and>
   (\<exists>r v'. Resize (\<lambda>n. True) (\<lambda>s t. s) 0 5
              \<lparr>v_items = [1, 2, 3 :: int], v_size = 3, v_capacity = 3\<rparr> = Returns r v' \<and>
           v_capacity v' = 5)"
proof -
  let ?v = "\<lparr>v_items = [1, 2, 3 :: int], v_size = 3, v_capacity = 3\<rparr>"
  have h: "wf ?v" by (simp add: wf_def SIZE_MAX_def)
  note t = growth_policy [OF h, where avail = "\<lambda>n. True" and moved_from = "\<lambda>s t. s" and d = 0
      and a = "Lvalue (Outside 4)" and pos = 0 and n = 5]
  have full: "v_size ?v = v_capacity ?v" and less: "v_capacity ?v < 5" by simp_all
  note t1 = t [THEN conjunct1, rule_format, OF full]
  note t2 = t [THEN conjunct2, rule_format, OF less]
  have "\<exists>r v'. PushBack (\<lambda>n. True) (\<lambda>s t. s) 0 (Lvalue (Outside 4)) ?v = Returns r v'"
    using t1 by (simp add: SIZE_MAX_def)
  then have a: "\<exists>r v'. PushBack (\<lambda>n. True) (\<lambda>s t. s) 0 (Lvalue (Outside 4)) ?v = Returns r v' \<and>
      v_capacity v' = 6"
    using t1 by fastforce
  have "\<exists>r v'. Reserve (\<lambda>n. True) (\<lambda>s t. s) 0 5 ?v = Returns r v'"
    using t2 by simp
  then have b: "\<exists>r v'. Reserve (\<lambda>n. True) (\<lambda>s t. s) 0 5 ?v = Returns r v' \<and> v_capacity v' = 5"
    using t2 by fastforce
  have "\<exists>r v'. Resize (\<lambda>n. True) (\<lambda>s t. s) 0 5 ?v = Returns r v'"
    using t2 by simp
  then have c: "\<exists>r v'. Resize (\<lambda>n. True) (\<lambda>s t. s) 0 5 ?v = Returns r v' \<and> v_capacity v' = 5"
    using t2 by fastforce
  show ?thesis using h a b c by blast
qed

section \<open>Insertion followed by erasure\<close>



section \<open>Resize\<close>

text \<open>
  C4: Resize(n) with n <= size only sets the size to n: buffer and capacity stay as they
  are. With n > size it returns exactly when n fits the capacity or a block of n slots can
  be allocated, and then the size is n, the capacity is n if it was smaller and unchanged
  otherwise, and the old elements are followed by n - size value-initialized ones.
  Hence Resize(n) with n <= size followed by Resize(old size) always returns, with the old
  size and capacity, the first n elements kept and the regrown tail value-initialized.
\<close>

theorem Resize_correct:
  assumes "wf v" and "n \<le> SIZE_MAX"
  shows "(n \<le> v_size v \<longrightarrow>
            Resize avail moved_from d n v = Returns () (v\<lparr>v_size := n\<rparr>)) \<and>
         (v_size v < n \<longrightarrow>
            ((\<exists>r v'. Resize avail moved_from d n v = Returns r v') \<longleftrightarrow>
               n \<le> v_capacity v \<or> avail n) \<and>
            (\<forall>r v'. Resize avail moved_from d n v = Returns r v' \<longrightarrow>
               v_size v' = n \<and>
               v_capacity v' = (if v_capacity v < n then n else v_capacity v) \<and>
               elems v' = elems v @ replicate (n - v_size v) d)) \<and>
         (n \<le> v_size v \<longrightarrow>
            (\<exists>v2. then_do (Resize avail moved_from d n v)
                     (\<lambda>_ v1. Resize avail moved_from d (v_size v) v1) = Returns () v2 \<and>
                  v_size v2 = v_size v \<and> v_capacity v2 = v_capacity v \<and>
                  elems v2 = take n (elems v) @ replicate (v_size v - n) d))"
proof (intro conjI impI allI)
  assume "n \<le> v_size v"
  then show "Resize avail moved_from d n v = Returns () (v\<lparr>v_size := n\<rparr>)"
    by (rule Resize_shrink)
next
  show "(\<exists>r v'. Resize avail moved_from d n v = Returns r v') \<longleftrightarrow> n \<le> v_capacity v \<or> avail n"
    using assms(1) by (rule Resize_Returns_iff)
next
  fix r v'
  assume a: "v_size v < n" "Resize avail moved_from d n v = Returns r v'"
  note r = Resize_Returns [OF assms a(2)]
  have len: "length (elems v) = v_size v"
    using assms by (simp add: elems_def wf_def)
  show "v_size v' = n" by (rule r(2))
  show "v_capacity v' = (if v_capacity v < n then n else v_capacity v)" by (rule r(3))
  show "elems v' = elems v @ replicate (n - v_size v) d"
    using r(4) a(1) len by simp
next
  assume le: "n \<le> v_size v"
  let ?v1 = "v\<lparr>v_size := n\<rparr>"
  have sz: "v_size v \<le> v_capacity v" and len: "length (v_items v) = v_capacity v"
    and cap: "v_capacity v \<le> SIZE_MAX"
    using assms by (simp_all add: wf_def)
  have wf1: "wf ?v1" using assms le by (simp add: wf_def)
  have n1: "v_size v \<le> SIZE_MAX" using sz cap by simp
  have "\<exists>r v2. Resize avail moved_from d (v_size v) ?v1 = Returns r v2"
    using Resize_Returns_iff [OF wf1, of avail moved_from d "v_size v"] sz by simp
  then obtain v2 where run: "Resize avail moved_from d (v_size v) ?v1 = Returns () v2"
    by auto
  note r = Resize_Returns [OF wf1 n1 run]
  have "elems ?v1 = take n (elems v)"
    using le by (simp add: elems_def min_def)
  then have "elems v2 = take n (elems v) @ replicate (v_size v - n) d"
    using r(4) le len sz by (simp add: min_def)
  moreover have "v_capacity v2 = v_capacity v" using r(3) sz by simp
  ultimately show "\<exists>v2. then_do (Resize avail moved_from d n v)
                     (\<lambda>_ v1. Resize avail moved_from d (v_size v) v1) = Returns () v2 \<and>
                  v_size v2 = v_size v \<and> v_capacity v2 = v_capacity v \<and>
                  elems v2 = take n (elems v) @ replicate (v_size v - n) d"
    using run r(2) le by (simp add: Resize_shrink)
qed

theorem Resize_correct_witness:
  "wf \<lparr>v_items = [1, 2, 3 :: int], v_size = 3, v_capacity = 3\<rparr> \<and> (1 :: nat) \<le> SIZE_MAX \<and>
   Resize (\<lambda>n. True) (\<lambda>s t. s) 0 1 \<lparr>v_items = [1, 2, 3 :: int], v_size = 3, v_capacity = 3\<rparr> =
     Returns () \<lparr>v_items = [1, 2, 3], v_size = 1, v_capacity = 3\<rparr> \<and>
   (\<exists>v2. then_do (Resize (\<lambda>n. True) (\<lambda>s t. s) 0 1
                     \<lparr>v_items = [1, 2, 3 :: int], v_size = 3, v_capacity = 3\<rparr>)
            (\<lambda>_ v1. Resize (\<lambda>n. True) (\<lambda>s t. s) 0 3 v1) = Returns () v2 \<and>
          v_size v2 = 3 \<and> v_capacity v2 = 3 \<and> elems v2 = [1, 0, 0])"
proof -
  let ?v = "\<lparr>v_items = [1, 2, 3 :: int], v_size = 3, v_capacity = 3\<rparr>"
  have h1: "wf ?v" by (simp add: wf_def SIZE_MAX_def)
  have h2: "(1 :: nat) \<le> SIZE_MAX" by (simp add: SIZE_MAX_def)
  have h3: "(1 :: nat) \<le> v_size ?v" by simp
  note t = Resize_correct [OF h1 h2, where avail = "\<lambda>n. True" and moved_from = "\<lambda>s t. s" and d = 0]
  have a: "Resize (\<lambda>n. True) (\<lambda>s t. s) 0 1 ?v =
      Returns () \<lparr>v_items = [1, 2, 3], v_size = 1, v_capacity = 3\<rparr>"
    using t [THEN conjunct1, rule_format, OF h3] by simp
  have e: "elems ?v = [1, 2, 3]" by (simp add: elems_def)
  have b: "\<exists>v2. then_do (Resize (\<lambda>n. True) (\<lambda>s t. s) 0 1 ?v)
            (\<lambda>_ v1. Resize (\<lambda>n. True) (\<lambda>s t. s) 0 3 v1) = Returns () v2 \<and>
          v_size v2 = 3 \<and> v_capacity v2 = 3 \<and> elems v2 = [1, 0, 0]"
    using t [THEN conjunct2, THEN conjunct2, rule_format, OF h3]
    by (simp add: e replicate_literal)
  show ?thesis using h1 h2 a b by blast
qed

section \<open>Allocation failure\<close>

text \<open>
  C5: when Reserve, a growing Resize, or a PushBack or Insert on a full vector needs a new
  block and the allocation fails, the call leaves by bad_alloc and the vector is exactly
  as before the call, whatever the argument refers to; and whenever one of these four
  calls leaves by an exception, the exception is bad_alloc and the vector is as before the
  call.
\<close>

theorem allocation_failure_keeps_state:
  "(v_capacity v < n \<and> \<not> avail n \<longrightarrow>
      Reserve avail moved_from d n v = Throws bad_alloc v) \<and>
   (v_size v < n \<and> v_capacity v < n \<and> \<not> avail n \<longrightarrow>
      Resize avail moved_from d n v = Throws bad_alloc v) \<and>
   (v_size v = v_capacity v \<and> 2 * v_capacity v \<le> SIZE_MAX \<and>
      \<not> avail (max 1 (2 * v_capacity v)) \<longrightarrow>
      PushBack avail moved_from d a v = Throws bad_alloc v \<and>
      Insert avail moved_from d pos a v = Throws bad_alloc v) \<and>
   (\<forall>e v'. Reserve avail moved_from d n v = Throws e v' \<or>
            Resize avail moved_from d n v = Throws e v' \<or>
            PushBack avail moved_from d a v = Throws e v' \<or>
            Insert avail moved_from d pos a v = Throws e v' \<longrightarrow>
            e = bad_alloc \<and> v' = v)"
proof (intro conjI impI allI)
  assume "v_capacity v < n \<and> \<not> avail n"
  then show "Reserve avail moved_from d n v = Throws bad_alloc v"
    by (simp add: Reserve_fail)
next
  assume "v_size v < n \<and> v_capacity v < n \<and> \<not> avail n"
  then show "Resize avail moved_from d n v = Throws bad_alloc v"
    by (simp add: Resize_fail)
next
  assume a: "v_size v = v_capacity v \<and> 2 * v_capacity v \<le> SIZE_MAX \<and>
      \<not> avail (max 1 (2 * v_capacity v))"
  then show "PushBack avail moved_from d a v = Throws bad_alloc v"
    by (intro PushBack_full_fail) simp_all
  from a show "Insert avail moved_from d pos a v = Throws bad_alloc v"
    by (intro Insert_full_fail) simp_all
next
  fix e v'
  assume "Reserve avail moved_from d n v = Throws e v' \<or>
            Resize avail moved_from d n v = Throws e v' \<or>
            PushBack avail moved_from d a v = Throws e v' \<or>
            Insert avail moved_from d pos a v = Throws e v'"
  then have "e = bad_alloc \<and> v' = v"
    using Reserve_Throws Resize_Throws PushBack_Throws Insert_Throws by metis
  then show "e = bad_alloc" "v' = v" by simp_all
qed

theorem allocation_failure_keeps_state_witness:
  "Reserve (\<lambda>n. False) (\<lambda>s t. s) 0 5 \<lparr>v_items = [1, 2, 3 :: int], v_size = 3, v_capacity = 3\<rparr> =
     Throws bad_alloc \<lparr>v_items = [1, 2, 3], v_size = 3, v_capacity = 3\<rparr> \<and>
   Resize (\<lambda>n. False) (\<lambda>s t. s) 0 5 \<lparr>v_items = [1, 2, 3 :: int], v_size = 3, v_capacity = 3\<rparr> =
     Throws bad_alloc \<lparr>v_items = [1, 2, 3], v_size = 3, v_capacity = 3\<rparr> \<and>
   PushBack (\<lambda>n. False) (\<lambda>s t. s) 0 (Lvalue (Outside 4)) \<lparr>v_items = [1, 2, 3 :: int], v_size = 3, v_capacity = 3\<rparr> =
     Throws bad_alloc \<lparr>v_items = [1, 2, 3], v_size = 3, v_capacity = 3\<rparr> \<and>
   Insert (\<lambda>n. False) (\<lambda>s t. s) 0 1 (Lvalue (Outside 4)) \<lparr>v_items = [1, 2, 3 :: int], v_size = 3, v_capacity = 3\<rparr> =
     Throws bad_alloc \<lparr>v_items = [1, 2, 3], v_size = 3, v_capacity = 3\<rparr>"
proof -
  let ?v = "\<lparr>v_items = [1, 2, 3 :: int], v_size = 3, v_capacity = 3\<rparr>"
  note t = allocation_failure_keeps_state [where v = ?v and avail = "\<lambda>n. False"
      and moved_from = "\<lambda>s t. s" and d = 0 and n = 5 and a = "Lvalue (Outside 4)" and pos = 1]
  have a: "Reserve (\<lambda>n. False) (\<lambda>s t. s) 0 5 ?v = Throws bad_alloc ?v"
    using t [THEN conjunct1] by simp
  have b: "Resize (\<lambda>n. False) (\<lambda>s t. s) 0 5 ?v = Throws bad_alloc ?v"
    using t [THEN conjunct2, THEN conjunct1] by simp
  have c: "PushBack (\<lambda>n. False) (\<lambda>s t. s) 0 (Lvalue (Outside 4)) ?v = Throws bad_alloc ?v \<and>
           Insert (\<lambda>n. False) (\<lambda>s t. s) 0 1 (Lvalue (Outside 4)) ?v = Throws bad_alloc ?v"
    using t [THEN conjunct2, THEN conjunct2, THEN conjunct1] by (simp add: SIZE_MAX_def)
  show ?thesis using a b c by blast
qed

section \<open>Checked access\<close>

text \<open>
  C6: At(i) throws (out_of_range, and nothing else) exactly when i >= size, and for
  i < size it returns the element that operator[](i) returns; in both cases the vector
  is left as it was.
\<close>

theorem At_checked:
  assumes "wf v"
  shows "((\<exists>e s. At v i = Throws e s) \<longleftrightarrow> v_size v \<le> i) \<and>
         (v_size v \<le> i \<longrightarrow> At v i = Throws out_of_range v) \<and>
         (i < v_size v \<longrightarrow>
            At v i = Returns (v_items v ! i) v \<and> index_op v i = Returns (v_items v ! i) v)"
  using assms by (auto simp: At_def index_op_def ArrayPtr_get_def wf_def)

theorem At_checked_witness:
  "wf \<lparr>v_items = [10, 20, 30 :: int], v_size = 2, v_capacity = 3\<rparr> \<and>
   At \<lparr>v_items = [10, 20, 30 :: int], v_size = 2, v_capacity = 3\<rparr> 1 =
     Returns 20 \<lparr>v_items = [10, 20, 30], v_size = 2, v_capacity = 3\<rparr> \<and>
   At \<lparr>v_items = [10, 20, 30 :: int], v_size = 2, v_capacity = 3\<rparr> 2 =
     Throws out_of_range \<lparr>v_items = [10, 20, 30], v_size = 2, v_capacity = 3\<rparr>"
proof -
  let ?v = "\<lparr>v_items = [10, 20, 30 :: int], v_size = 2, v_capacity = 3\<rparr>"
  have h: "wf ?v"
    by (simp add: wf_def SIZE_MAX_def)
  have "At ?v 1 = Returns 20 ?v"
    using At_checked [OF h, of 1] by simp
  moreover have "At ?v 2 = Throws out_of_range ?v"
    using At_checked [OF h, of 2] by simp
  ultimately show ?thesis using h by simp
qed

section \<open>Move construction and move assignment\<close>

text \<open>
  C7: the move constructor gives the new vector the size, the capacity and the buffer
  (hence the elements) of its source and leaves the source with size 0, capacity 0 and
  the null buffer. Move assignment to a different object does the same for its left-hand
  side and touches no third object. Both are total functions without an exceptional
  outcome: they cannot fail.
\<close>

theorem move_transfers_ownership:
  "(case SimpleVector_move src of
      (new, src') \<Rightarrow>
        v_size new = v_size src \<and> v_capacity new = v_capacity src \<and>
        v_items new = v_items src \<and> elems new = elems src \<and>
        v_size src' = 0 \<and> v_capacity src' = 0 \<and> v_items src' = []) \<and>
   (this \<noteq> other \<longrightarrow>
      (case assign_move this other h of
         (r, h') \<Rightarrow>
           r = this \<and> h' this = h other \<and> elems (h' this) = elems (h other) \<and>
           v_size (h' other) = 0 \<and> v_capacity (h' other) = 0 \<and> v_items (h' other) = [] \<and>
           (\<forall>a. a \<noteq> this \<and> a \<noteq> other \<longrightarrow> h' a = h a)))"
  by (simp add: SimpleVector_move_def assign_move_def elems_def Let_def)

theorem move_transfers_ownership_witness:
  "(1 :: nat) \<noteq> 2 \<and>
   assign_move 1 2
     ((\<lambda>a. SimpleVector_default)
        (1 := \<lparr>v_items = [7 :: int], v_size = 1, v_capacity = 1\<rparr>,
         2 := \<lparr>v_items = [1, 2, 3], v_size = 2, v_capacity = 3\<rparr>)) =
   (1, (\<lambda>a. SimpleVector_default)
        (1 := \<lparr>v_items = [1, 2, 3], v_size = 2, v_capacity = 3\<rparr>,
         2 := \<lparr>v_items = [], v_size = 0, v_capacity = 0\<rparr>))"
proof -
  let ?h = "(\<lambda>a. SimpleVector_default)
        (1 := \<lparr>v_items = [7 :: int], v_size = 1, v_capacity = 1\<rparr>,
         2 := \<lparr>v_items = [1, 2, 3], v_size = 2, v_capacity = 3\<rparr>)"
  have ne: "(1 :: nat) \<noteq> 2" by simp
  obtain r h' where run: "assign_move 1 2 ?h = (r, h')" by (cases "assign_move 1 2 ?h")
  have t: "r = 1 \<and> h' 1 = ?h 2 \<and> v_size (h' 2) = 0 \<and> v_capacity (h' 2) = 0 \<and>
        v_items (h' 2) = [] \<and> (\<forall>a. a \<noteq> 1 \<and> a \<noteq> 2 \<longrightarrow> h' a = ?h a)"
    using move_transfers_ownership [where this = 1 and other = 2 and h = ?h, THEN conjunct2,
        rule_format, OF ne] run
    by simp
  have "h' = (\<lambda>a. SimpleVector_default)
        (1 := \<lparr>v_items = [1, 2, 3], v_size = 2, v_capacity = 3\<rparr>,
         2 := \<lparr>v_items = [], v_size = 0, v_capacity = 0\<rparr>)"
  proof
    fix a
    show "h' a = ((\<lambda>a. SimpleVector_default)
        (1 := \<lparr>v_items = [1, 2, 3], v_size = 2, v_capacity = 3\<rparr>,
         2 := \<lparr>v_items = [], v_size = 0, v_capacity = 0\<rparr>)) a"
      using t by (cases "a = 1"; cases "a = 2") auto
  qed
  then show ?thesis using ne run t by simp
qed

section \<open>Comparison operators\<close>

text \<open>
  C8: for two vectors in a valid state, operator== is true exactly when the element
  sequences have the same length and agree at every position, that is, when they are the
  same sequence, whatever the two capacities; operator< is the lexicographic order of the
  element sequences: the left sequence is a proper prefix of the right one, or at the
  first position where they differ the left element is the smaller.
\<close>

theorem comparison_operators:
  fixes lhs rhs :: "('a::linorder) SimpleVector"
  assumes "wf lhs" and "wf rhs"
  shows "operator_eq lhs rhs =
           Some (length (elems lhs) = length (elems rhs) \<and>
                 (\<forall>i. i < length (elems lhs) \<longrightarrow> elems lhs ! i = elems rhs ! i)) \<and>
         operator_eq lhs rhs = Some (elems lhs = elems rhs) \<and>
         operator_lt lhs rhs = Some ((elems lhs, elems rhs) \<in> lexord {(a, b). a < b}) \<and>
         operator_lt lhs rhs =
           Some ((\<exists>a t. elems rhs = elems lhs @ a # t) \<or>
                 (\<exists>u a b s t. a < b \<and> elems lhs = u @ a # s \<and> elems rhs = u @ b # t))"
proof -
  have eq: "operator_eq lhs rhs = Some (elems lhs = elems rhs)"
    using assms by (rule operator_eq_ok)
  have lt: "operator_lt lhs rhs = Some ((elems lhs, elems rhs) \<in> lexord {(a, b). a < b})"
    using assms by (rule operator_lt_ok)
  have "(elems lhs = elems rhs) \<longleftrightarrow>
        (length (elems lhs) = length (elems rhs) \<and>
         (\<forall>i. i < length (elems lhs) \<longrightarrow> elems lhs ! i = elems rhs ! i))"
    by (auto simp: list_eq_iff_nth_eq)
  moreover have "((elems lhs, elems rhs) \<in> lexord {(a, b). a < b}) \<longleftrightarrow>
        ((\<exists>a t. elems rhs = elems lhs @ a # t) \<or>
         (\<exists>u a b s t. a < b \<and> elems lhs = u @ a # s \<and> elems rhs = u @ b # t))"
    by (auto simp: lexord_def)
  ultimately show ?thesis using eq lt by simp
qed

theorem comparison_operators_witness:
  "wf \<lparr>v_items = [1, 2, 9 :: int], v_size = 2, v_capacity = 3\<rparr> \<and>
   wf \<lparr>v_items = [1, 2 :: int], v_size = 2, v_capacity = 2\<rparr> \<and>
   wf \<lparr>v_items = [1, 3 :: int], v_size = 2, v_capacity = 2\<rparr> \<and>
   operator_eq \<lparr>v_items = [1, 2, 9 :: int], v_size = 2, v_capacity = 3\<rparr>
               \<lparr>v_items = [1, 2], v_size = 2, v_capacity = 2\<rparr> = Some True \<and>
   operator_lt \<lparr>v_items = [1, 2, 9 :: int], v_size = 2, v_capacity = 3\<rparr>
               \<lparr>v_items = [1, 3], v_size = 2, v_capacity = 2\<rparr> = Some True \<and>
   operator_lt \<lparr>v_items = [1, 3 :: int], v_size = 2, v_capacity = 2\<rparr>
               \<lparr>v_items = [1, 2, 9], v_size = 2, v_capacity = 3\<rparr> = Some False"
proof -
  let ?a = "\<lparr>v_items = [1, 2, 9 :: int], v_size = 2, v_capacity = 3\<rparr>"
  let ?b = "\<lparr>v_items = [1, 2 :: int], v_size = 2, v_capacity = 2\<rparr>"
  let ?c = "\<lparr>v_items = [1, 3 :: int], v_size = 2, v_capacity = 2\<rparr>"
  have ha: "wf ?a" and hb: "wf ?b" and hc: "wf ?c"
    by (simp_all add: wf_def SIZE_MAX_def)
  have ea: "elems ?a = [1, 2]" and eb: "elems ?b = [1, 2]" and ec: "elems ?c = [1, 3]"
    by (simp_all add: elems_def)
  have "operator_eq ?a ?b = Some True"
    using comparison_operators [OF ha hb] by (simp add: ea eb)
  moreover have "operator_lt ?a ?c = Some True"
    using comparison_operators [OF ha hc] by (simp add: ea ec)
  moreover have "operator_lt ?c ?a = Some False"
    using comparison_operators [OF hc ha] by (simp add: ea ec)
  ultimately show ?thesis using ha hb hc by simp
qed

section \<open>The invariant size <= capacity\<close>

text \<open>
  C9: every constructor that returns, and every member function called on vectors in a
  valid state that returns or throws, leaves the vectors involved in a valid state, and a
  valid state has 0 <= size <= capacity; for PushBack and Insert this holds whatever the
  argument refers to. A sequence of PushBack calls on a default-constructed vector that
  returns leaves the size equal to the number of calls, and the elements equal to the
  values pushed when the arguments are outside the buffer; with such arguments it does
  return when every allocation it asks for succeeds and there are at most 2^63 calls.
\<close>

theorem invariant_preserved:
  fixes v :: "'a SimpleVector" and h :: "'a store"
  assumes "wf v" and "wf (h this)" and "wf (h other)"
    and "n \<le> SIZE_MAX" and "length init \<le> SIZE_MAX"
  shows "wf (SimpleVector_default :: 'a SimpleVector) \<and>
         constructs wf (SimpleVector_copy avail d v) \<and>
         constructs wf (SimpleVector_sized avail d n) \<and>
         constructs wf (SimpleVector_filled avail d n val) \<and>
         constructs wf (SimpleVector_init avail d init) \<and>
         constructs wf (SimpleVector_reserved avail d (Reserve_proxy n)) \<and>
         wf (fst (SimpleVector_move v)) \<and> wf (snd (SimpleVector_move v)) \<and>
         leaves (\<lambda>h'. wf (h' this) \<and> wf (h' other)) (assign_copy avail d this other h) \<and>
         wf (snd (assign_move this other h) this) \<and>
         wf (snd (assign_move this other h) other) \<and>
         leaves wf (index_op v i) \<and>
         leaves wf (At v i) \<and>
         wf (Clear v) \<and>
         leaves wf (Resize avail moved_from d n v) \<and>
         leaves wf (PushBack avail moved_from d a v) \<and>
         wf (PopBack v) \<and>
         leaves wf (Insert avail moved_from d pos a v) \<and>
         leaves wf (Erase moved_from pos v) \<and>
         leaves wf (Reserve avail moved_from d n v) \<and>
         wf (swap this other h this) \<and> wf (swap this other h other) \<and>
         (\<forall>s :: 'a SimpleVector. wf s \<longrightarrow> 0 \<le> v_size s \<and> v_size s \<le> v_capacity s) \<and>
         (\<forall>r v'. PushBack_all avail moved_from d as SimpleVector_default = Returns r v' \<longrightarrow>
                  v_size v' = length as \<and> v_size v' \<le> v_capacity v' \<and>
                  (\<forall>xs. map outside as = map Some xs \<longrightarrow> elems v' = xs)) \<and>
         (length as \<le> 2 ^ 63 \<and> (\<forall>m. m \<le> 2 * length as \<longrightarrow> avail m) \<and>
          map outside as = map Some xs \<longrightarrow>
            (\<exists>v'. PushBack_all avail moved_from d as SimpleVector_default = Returns () v'))"
proof -
  have c1: "constructs wf (SimpleVector_copy avail d v)"
    using wf_copy [OF assms(1), of avail d] by (rule constructs_mono) simp
  have c2: "constructs wf (SimpleVector_sized avail d n)"
    using wf_sized [OF assms(4), of d avail] by (rule constructs_mono) simp
  have c3: "constructs wf (SimpleVector_filled avail d n val)"
    using wf_filled [OF assms(4), of val avail d] by (rule constructs_mono) simp
  have c4: "constructs wf (SimpleVector_init avail d init)"
    using wf_init [OF assms(5), of avail d] by (rule constructs_mono) simp
  have c5: "constructs wf (SimpleVector_reserved avail d (Reserve_proxy n))"
    using wf_reserved [OF assms(4), of avail d] by (rule constructs_mono) simp
  have a1: "leaves (\<lambda>h'. wf (h' this) \<and> wf (h' other)) (assign_copy avail d this other h)"
    using leaves_assign_copy [OF assms(2,3), of avail d] by (rule leaves_mono) simp
  have p1: "\<forall>r v'. PushBack_all avail moved_from d as SimpleVector_default = Returns r v' \<longrightarrow>
                  v_size v' = length as \<and> v_size v' \<le> v_capacity v' \<and>
                  (\<forall>xs. map outside as = map Some xs \<longrightarrow> elems v' = xs)"
  proof (intro allI impI)
    fix r v'
    assume "PushBack_all avail moved_from d as (SimpleVector_default :: 'a SimpleVector) =
            Returns r v'"
    from PushBack_all_Returns [OF wf_default this]
    have "wf v'" "v_size v' = v_size (SimpleVector_default :: 'a SimpleVector) + length as"
      "\<forall>xs. map outside as = map Some xs \<longrightarrow>
         elems v' = elems (SimpleVector_default :: 'a SimpleVector) @ xs"
      by simp_all
    moreover have "v_size (SimpleVector_default :: 'a SimpleVector) = 0"
      "elems (SimpleVector_default :: 'a SimpleVector) = []"
      by (simp_all add: SimpleVector_default_def elems_def)
    ultimately show "v_size v' = length as \<and> v_size v' \<le> v_capacity v' \<and>
                  (\<forall>xs. map outside as = map Some xs \<longrightarrow> elems v' = xs)"
      by (simp add: wf_def)
  qed
  have p2: "length as \<le> 2 ^ 63 \<and> (\<forall>m. m \<le> 2 * length as \<longrightarrow> avail m) \<and>
          map outside as = map Some xs \<longrightarrow>
            (\<exists>v'. PushBack_all avail moved_from d as (SimpleVector_default :: 'a SimpleVector)
                     = Returns () v')"
  proof
    assume a: "length as \<le> 2 ^ 63 \<and> (\<forall>m. m \<le> 2 * length as \<longrightarrow> avail m) \<and>
          map outside as = map Some xs"
    have s0: "v_size (SimpleVector_default :: 'a SimpleVector) = 0"
      by (simp add: SimpleVector_default_def)
    show "\<exists>v'. PushBack_all avail moved_from d as (SimpleVector_default :: 'a SimpleVector)
                     = Returns () v'"
      using a by (intro PushBack_all_ok [where xs = xs] wf_default) (simp_all add: s0)
  qed
  have inv: "\<forall>s :: 'a SimpleVector. wf s \<longrightarrow> 0 \<le> v_size s \<and> v_size s \<le> v_capacity s"
    by (simp add: wf_def)
  show ?thesis
    using wf_default c1 c2 c3 c4 c5 wf_move [OF assms(1)] a1 wf_assign_move(1,2) [OF assms(2,3)]
      leaves_index_op [OF assms(1)] leaves_At [OF assms(1)] wf_Clear [OF assms(1)]
      leaves_Resize [OF assms(1,4)] leaves_PushBack [OF assms(1)] wf_PopBack [OF assms(1)]
      leaves_Insert [OF assms(1)] leaves_Erase [OF assms(1)] leaves_Reserve [OF assms(1,4)]
      wf_swap(1,2) [OF assms(2,3)] inv p1 p2
    by blast
qed

theorem invariant_preserved_witness:
  "wf \<lparr>v_items = [1, 2, 3 :: int], v_size = 3, v_capacity = 3\<rparr> \<and>
   (5 :: nat) \<le> SIZE_MAX \<and> length [7, 8 :: int] \<le> SIZE_MAX \<and>
   (\<exists>v'. PushBack_all (\<lambda>n. True) (\<lambda>s t. s) 0
            [Lvalue (Outside 4), Rvalue (Outside 5), Lvalue (Outside (6 :: int))]
            SimpleVector_default =
            Returns () v' \<and> v_size v' = 3 \<and> elems v' = [4, 5, 6] \<and>
          v_size v' \<le> v_capacity v') \<and>
   wf (PopBack \<lparr>v_items = [1, 2, 3 :: int], v_size = 3, v_capacity = 3\<rparr>) \<and>
   leaves wf (Insert (\<lambda>n. True) (\<lambda>s t. s) 0 1 (Lvalue (Outside 10))
                \<lparr>v_items = [1, 2, 3 :: int], v_size = 3, v_capacity = 3\<rparr>)"
proof -
  let ?v = "\<lparr>v_items = [1, 2, 3 :: int], v_size = 3, v_capacity = 3\<rparr>"
  let ?h = "\<lambda>a :: nat. ?v"
  let ?as = "[Lvalue (Outside 4), Rvalue (Outside 5), Lvalue (Outside (6 :: int))]"
  have h1: "wf ?v" by (simp add: wf_def SIZE_MAX_def)
  have h2: "wf (?h 0)" and h3: "wf (?h 1)" using h1 by simp_all
  have h4: "(5 :: nat) \<le> SIZE_MAX" by (simp add: SIZE_MAX_def)
  have h5: "length [7, 8 :: int] \<le> SIZE_MAX" by (simp add: SIZE_MAX_def)
  note t = invariant_preserved [where v = ?v and h = ?h and this = 0 and other = 1 and n = 5
      and init = "[7, 8]" and avail = "\<lambda>n. True" and moved_from = "\<lambda>s t. s" and d = 0
      and val = 10 and a = "Lvalue (Outside 10)" and pos = 1 and i = 0 and as = ?as
      and xs = "[4, 5, 6]", OF h1 h2 h3 h4 h5]
  have a: "wf (PopBack ?v)" using t by blast
  have b: "leaves wf (Insert (\<lambda>n. True) (\<lambda>s t. s) 0 1 (Lvalue (Outside 10)) ?v)" using t by blast
  have m: "map outside ?as = map Some [4, 5, 6]" by simp
  have "length ?as \<le> 2 ^ 63 \<and> (\<forall>m. m \<le> 2 * length ?as \<longrightarrow> (\<lambda>n. True) m) \<and>
        map outside ?as = map Some [4, 5, 6]"
    by simp
  with t obtain v' where
    run: "PushBack_all (\<lambda>n. True) (\<lambda>s t. s) 0 ?as SimpleVector_default = Returns () v'"
    by blast
  with t have "v_size v' = length ?as \<and> v_size v' \<le> v_capacity v' \<and>
      (\<forall>xs. map outside ?as = map Some xs \<longrightarrow> elems v' = xs)"
    by blast
  with m have "v_size v' = 3 \<and> elems v' = [4, 5, 6] \<and> v_size v' \<le> v_capacity v'"
    by simp
  then show ?thesis using h1 h4 h5 a b run by simp
qed

section \<open>Insertion at the end\<close>

text \<open>
  C10: Insert(end(), x) and PushBack(x) have the same effect on every vector and for
  every argument, by either overload and wherever it refers to: the same outcome (return,
  allocation failure or undefined behaviour) and, with it, the same buffer, size and
  capacity; only the returned iterator is extra.
\<close>

theorem Insert_at_end_is_PushBack:
  "discard (Insert avail moved_from d (end_it v) a v) = PushBack avail moved_from d a v"
  by (rule PushBack_as_Insert [symmetric])

end
